theory Spec2Isabelle
  imports Main
begin

section \<open>BigNum: decimal strings as unsigned arbitrary-precision integers\<close>

text \<open>
  The header \<^verbatim>\<open>bignum.h\<close> keeps a number as a \<^verbatim>\<open>std::string\<close> of decimal digit
  characters, most significant first, inside the struct \<^verbatim>\<open>Num\<close>.  Strings are
  modelled as \<^typ>\<open>string\<close>.  The loop indices of the source are 32-bit \<^verbatim>\<open>int\<close>s set
  from \<^verbatim>\<open>size_t\<close> lengths; the model converts as the machine does and gives no result
  (\<open>None\<close>) where an \<^verbatim>\<open>int\<close> would overflow, which C++ leaves undefined.
\<close>

subsection \<open>Machine integers\<close>

definition INT_MIN :: int where
  "INT_MIN = - 2147483648"

definition INT_MAX :: int where
  "INT_MAX = 2147483647"

text \<open>
  The conversion of a \<^verbatim>\<open>size_t\<close> value to \<^verbatim>\<open>int\<close>, as in \<^verbatim>\<open>int i = s.length()-1\<close>: the
  low 32 bits, read as a two's-complement number.
\<close>

definition int_of_size :: "nat \<Rightarrow> int" where
  "int_of_size n =
     (if int n mod 4294967296 < 2147483648 then int n mod 4294967296
      else int n mod 4294967296 - 4294967296)"

text \<open>
  \<^verbatim>\<open>s.length()-1\<close> is computed in \<^verbatim>\<open>size_t\<close> (taken to be 64 bits wide): on the empty
  string it wraps around to the largest value of the type.
\<close>

definition length_minus_one :: "string \<Rightarrow> nat" where
  "length_minus_one s = (if s = [] then 2 ^ 64 - 1 else length s - 1)"

subsection \<open>Digit conversions\<close>

text \<open>\<^verbatim>\<open>int val(char c) { return c - '0'; }\<close>, with \<^verbatim>\<open>char\<close> a signed byte: the codes from
  128 on are negative.  For the decimal digits the signedness makes no difference.\<close>

definition val :: "char \<Rightarrow> int" where
  "val c = (if of_char c < (128::int) then of_char c else of_char c - 256) - 48"

text \<open>\<^verbatim>\<open>char unval(int n) { return n + '0'; }\<close>: the conversion to \<^verbatim>\<open>char\<close> keeps the low
  eight bits.\<close>

definition unval :: "int \<Rightarrow> char" where
  "unval n = char_of (n + 48)"

subsection \<open>The struct\<close>

record Num =
  digits :: string

text \<open>The constructor \<^verbatim>\<open>Num(std::string digits_)\<close>.\<close>

definition mkNum :: "string \<Rightarrow> Num" where
  "mkNum s = \<lparr>digits = s\<rparr>"

subsection \<open>Scientific notation\<close>

text \<open>
  \<^verbatim>\<open>n.digits[i]\<close> on a \<^verbatim>\<open>std::string\<close>: the character at \<open>i\<close> below the length, the
  terminating null character at the length itself, and undefined beyond it
  (\<open>None\<close>).
\<close>

definition str_at :: "string \<Rightarrow> nat \<Rightarrow> char option" where
  "str_at s i =
     (if i < length s then Some (s ! i)
      else if i = length s then Some (CHR 0x00)
      else None)"

text \<open>The decimal text that the stream writes for an unsigned integer.\<close>

function put_size :: "nat \<Rightarrow> string" where
  "put_size n =
     (if n < 10 then [char_of (48 + n)]
      else put_size (n div 10) @ [char_of (48 + n mod 10)])"
  by pat_completeness auto
termination
  by (relation "measure (\<lambda>n. n)") auto

declare put_size.simps [simp del]

text \<open>
  The loop \<^verbatim>\<open>for (int i = 1; i < sigfigs; i++)\<close>; \<open>res\<close> is the content of the string
  stream.
\<close>

function scino_loop :: "string \<Rightarrow> int \<Rightarrow> int \<Rightarrow> string \<Rightarrow> string option" where
  "scino_loop ds sigfigs i res =
     (if i < sigfigs then
        (if nat i > length_minus_one ds then
           scino_loop ds sigfigs (i + 1) (res @ [CHR ''0''])
         else
           (case str_at ds (nat i) of
              None \<Rightarrow> None
            | Some c \<Rightarrow> scino_loop ds sigfigs (i + 1) (res @ [c])))
      else Some res)"
  by pat_completeness auto
termination
  by (relation "measure (\<lambda>(ds, sigfigs, i, res). nat (sigfigs - i))") auto

declare scino_loop.simps [simp del]

definition scino :: "Num \<Rightarrow> int \<Rightarrow> string option" where
  "scino n sigfigs =
     (case str_at (digits n) 0 of
        None \<Rightarrow> None
      | Some c \<Rightarrow>
          (case (if sigfigs > 1 then scino_loop (digits n) sigfigs 1 ([c] @ [CHR ''.''])
                 else Some [c]) of
             None \<Rightarrow> None
           | Some res \<Rightarrow>
               Some (res @ [CHR ''E''] @ put_size (length_minus_one (digits n)))))"

text \<open>The overload \<^verbatim>\<open>scino(Num n)\<close> without the number of significant figures.\<close>

definition scino_default :: "Num \<Rightarrow> string option" where
  "scino_default n = scino n 5"

subsection \<open>Comparison\<close>

text \<open>
  The loop \<^verbatim>\<open>for (int i = 0; i < x.digits.length(); i++)\<close> with its early returns.
  The increment overflows when \<open>i\<close> is \<open>INT_MAX\<close>.
\<close>

function compare_loop :: "string \<Rightarrow> string \<Rightarrow> int \<Rightarrow> int option" where
  "compare_loop xs ys i =
     (if i < int (length xs) then
        (if val (xs ! nat i) > val (ys ! nat i) then Some 1
         else if val (xs ! nat i) < val (ys ! nat i) then Some (- 1)
         else if i \<ge> INT_MAX then None
         else compare_loop xs ys (i + 1))
      else Some 0)"
  by pat_completeness auto
termination
  by (relation "measure (\<lambda>(xs, ys, i). nat (int (length xs) - i))") auto

declare compare_loop.simps [simp del]

definition compare :: "Num \<Rightarrow> Num \<Rightarrow> int option" where
  "compare x y =
     (if length (digits x) > length (digits y) then Some 1
      else if length (digits x) < length (digits y) then Some (- 1)
      else compare_loop (digits x) (digits y) 0)"

subsection \<open>Addition\<close>

text \<open>
  One pass of the \<^verbatim>\<open>while\<close> loop of \<^verbatim>\<open>add\<close> first forms \<open>dsum\<close> from the carry
  \<open>drem\<close> and the digits that are still there.
\<close>

definition add_dsum :: "string \<Rightarrow> string \<Rightarrow> int \<Rightarrow> int \<Rightarrow> int \<Rightarrow> int" where
  "add_dsum x y xind yind drem =
     (let dsum = drem;
          dsum = (if xind \<ge> 0 then dsum + val (x ! nat xind) else dsum);
          dsum = (if yind \<ge> 0 then dsum + val (y ! nat yind) else dsum)
      in dsum)"

text \<open>
  Every pass ends with \<^verbatim>\<open>xind--; yind--;\<close>, also for an index that is already
  negative: at \<open>INT_MIN\<close> the decrement overflows.
\<close>

function add_loop :: "string \<Rightarrow> string \<Rightarrow> int \<Rightarrow> int \<Rightarrow> int \<Rightarrow> string \<Rightarrow> string option" where
  "add_loop x y xind yind drem sumstr =
     (if xind \<ge> 0 \<or> yind \<ge> 0 \<or> drem = 1 then
        (if xind \<le> INT_MIN \<or> yind \<le> INT_MIN then None
         else if add_dsum x y xind yind drem \<ge> 10 then
           add_loop x y (xind - 1) (yind - 1) 1
             (unval (add_dsum x y xind yind drem - 10) # sumstr)
         else
           add_loop x y (xind - 1) (yind - 1) 0
             (unval (add_dsum x y xind yind drem) # sumstr))
      else Some sumstr)"
  by pat_completeness auto
termination
  by (relation "measure (\<lambda>(x, y, xind, yind, drem, sumstr). nat (xind - INT_MIN))")
    (auto simp: INT_MIN_def)

declare add_loop.simps [simp del]

definition add :: "Num \<Rightarrow> Num \<Rightarrow> Num option" where
  "add m n =
     (let (x, y) = (if length (digits m) \<ge> length (digits n) then (m, n) else (n, m))
      in map_option mkNum
           (add_loop (digits x) (digits y)
              (int_of_size (length_minus_one (digits x)))
              (int_of_size (length_minus_one (digits y))) 0 []))"

subsection \<open>Multiplication\<close>

text \<open>The loop \<^verbatim>\<open>for (int i = 0; i < zeroes; i++) dtotal = '0' + dtotal;\<close>\<close>

function zeroes_loop :: "int \<Rightarrow> int \<Rightarrow> string \<Rightarrow> string" where
  "zeroes_loop i zeroes dtotal =
     (if i < zeroes then zeroes_loop (i + 1) zeroes (CHR ''0'' # dtotal) else dtotal)"
  by pat_completeness auto
termination
  by (relation "measure (\<lambda>(i, zeroes, dtotal). nat (zeroes - i))") auto

declare zeroes_loop.simps [simp del]

text \<open>
  The inner loop over the digits of \<open>x\<close>, for the digit \<open>yd\<close> of \<open>y\<close>; it returns
  \<open>dtotal\<close> and the last carry \<open>drem\<close>.  In the branch that divides, \<open>dprod\<close> is at
  least 10, where the truncating division of C++ is \<open>div\<close>.
\<close>

function multiply_inner :: "string \<Rightarrow> char \<Rightarrow> int \<Rightarrow> int \<Rightarrow> string \<Rightarrow> string \<times> int" where
  "multiply_inner x yd xind drem dtotal =
     (if xind \<ge> 0 then
        (let dprod = val (x ! nat xind) * val yd + drem in
           if dprod \<ge> 10 then
             (let drem' = dprod div 10 in
                multiply_inner x yd (xind - 1) drem' (unval (dprod - drem' * 10) # dtotal))
           else multiply_inner x yd (xind - 1) 0 (unval dprod # dtotal))
      else (dtotal, drem))"
  by pat_completeness auto
termination
  by (relation "measure (\<lambda>(x, yd, xind, drem, dtotal). nat (xind + 1))") auto

declare multiply_inner.simps [simp del]

text \<open>
  The outer loop over the digits of \<open>y\<close>, last digit first.  A pass ends with
  \<^verbatim>\<open>yind--, zeroes++\<close>; the increment overflows at \<open>INT_MAX\<close>.
\<close>

function multiply_loop :: "Num \<Rightarrow> Num \<Rightarrow> int \<Rightarrow> int \<Rightarrow> Num \<Rightarrow> Num option" where
  "multiply_loop x y yind zeroes product =
     (if yind \<ge> 0 then
        (let dtotal = zeroes_loop 0 zeroes [];
             (dtotal, drem) =
                multiply_inner (digits x) (digits y ! nat yind)
                  (int_of_size (length_minus_one (digits x))) 0 dtotal;
             dtotal = (if drem > 0 then unval drem # dtotal else dtotal)
         in case add product (mkNum dtotal) of
              None \<Rightarrow> None
            | Some product' \<Rightarrow>
                if zeroes \<ge> INT_MAX then None
                else multiply_loop x y (yind - 1) (zeroes + 1) product')
      else Some product)"
  by pat_completeness auto
termination
  by (relation "measure (\<lambda>(x, y, yind, zeroes, product). nat (yind + 1))") auto

declare multiply_loop.simps [simp del]

definition multiply :: "Num \<Rightarrow> Num \<Rightarrow> Num option" where
  "multiply m n =
     (if digits m = ''0'' \<or> digits n = ''0'' then Some (mkNum ''0'')
      else
        (let (x, y) = (if length (digits m) \<ge> length (digits n) then (m, n) else (n, m))
         in multiply_loop x y (int_of_size (length_minus_one (digits y))) 0 (mkNum ''0'')))"

subsection \<open>Decrement\<close>

text \<open>
  The loop of \<^verbatim>\<open>decrement\<close>: \<open>i\<close> runs from the last index down to 0, \<open>decr\<close> is the
  pending borrow, \<open>res\<close> the string built so far.  The \<^verbatim>\<open>break\<close> leaves the loop with
  \<open>res\<close> as it is.
\<close>

function decrement_loop :: "string \<Rightarrow> int \<Rightarrow> bool \<Rightarrow> string \<Rightarrow> string" where
  "decrement_loop ds i decr res =
     (if i \<ge> 0 then
        (if decr then
           (if i = 0 \<and> ds ! nat i = CHR ''1'' \<and> length ds > 1 then res
            else if ds ! nat i = CHR ''0'' then decrement_loop ds (i - 1) True (CHR ''9'' # res)
            else decrement_loop ds (i - 1) False (unval (val (ds ! nat i) - 1) # res))
         else decrement_loop ds (i - 1) False (ds ! nat i # res))
      else res)"
  by pat_completeness auto
termination
  by (relation "measure (\<lambda>(ds, i, decr, res). nat (i + 1))") auto

declare decrement_loop.simps [simp del]

definition decrement :: "Num \<Rightarrow> Num" where
  "decrement n =
     mkNum (decrement_loop (digits n) (int_of_size (length_minus_one (digits n))) True [])"

subsection \<open>Exponentiation\<close>

text \<open>
  The loop \<^verbatim>\<open>while (p.digits != "0") { res = multiply(n, res); p = decrement(p); }\<close>
  need not end (an empty exponent stays empty and never becomes \<^verbatim>\<open>"0"\<close>), so the
  result is optional: \<open>None\<close> stands for a loop that runs forever, or for a product
  that has no result.
\<close>

partial_function (option) power_loop :: "Num \<Rightarrow> Num \<Rightarrow> Num \<Rightarrow> Num option" where
  "power_loop n p res =
     (if digits p \<noteq> ''0'' then
        Option.bind (multiply n res) (\<lambda>res. power_loop n (decrement p) res)
      else Some res)"

declare power_loop.simps [code]

definition power :: "Num \<Rightarrow> Num \<Rightarrow> Num option" where
  "power n p = power_loop n p (mkNum ''1'')"

subsection \<open>Values and canonical form\<close>

text \<open>A decimal digit character is one that \<^const>\<open>val\<close> maps into 0..9.\<close>

definition is_digit :: "char \<Rightarrow> bool" where
  "is_digit c = (0 \<le> val c \<and> val c \<le> 9)"

text \<open>A Value is a sequence of decimal digits.\<close>

definition is_value :: "Num \<Rightarrow> bool" where
  "is_value n = list_all is_digit (digits n)"

text \<open>Canonical form: non-empty, and no leading zero except for the single digit 0.\<close>

definition canonical :: "Num \<Rightarrow> bool" where
  "canonical n =
     (digits n \<noteq> [] \<and> list_all is_digit (digits n) \<and>
      (length (digits n) = 1 \<or> hd (digits n) \<noteq> CHR ''0''))"

text \<open>The number that a digit sequence denotes, most significant digit first.\<close>

definition str_value :: "string \<Rightarrow> int" where
  "str_value s = foldl (\<lambda>a c. 10 * a + val c) 0 s"

definition num_value :: "Num \<Rightarrow> int" where
  "num_value n = str_value (digits n)"

text \<open>The value of the digits of \<open>x\<close> up to and including index \<open>i\<close>.\<close>

definition prefix_value :: "string \<Rightarrow> int \<Rightarrow> int" where
  "prefix_value x i = str_value (take (nat (i + 1)) x)"

subsection \<open>Scientific notation as the specification words it\<close>

text \<open>
  The first digit; then, only for more than one significant digit, a decimal point
  and the next \<open>significant_digits - 1\<close> digits, padded on the right with zeros when
  there are fewer; then \<open>E\<close> and the number of digits less one, in decimal.
\<close>

definition scientific_spec :: "string \<Rightarrow> int \<Rightarrow> string" where
  "scientific_spec v significant_digits =
     [hd v] @
     (if significant_digits > 1 then
        [CHR ''.''] @ take (nat (significant_digits - 1)) (tl v) @
        replicate (nat (significant_digits - 1) - length (tl v)) (CHR ''0'')
      else []) @
     [CHR ''E''] @ put_size (length v - 1)"

section \<open>Auxiliary facts\<close>

subsection \<open>Machine integers\<close>

lemma int_of_size_small: "n < 2147483648 \<Longrightarrow> int_of_size n = int n"
  by (simp add: int_of_size_def)

lemma int_of_size_length:
  assumes "length s \<le> 2147483648"
  shows "int_of_size (length_minus_one s) = int (length s) - 1"
proof (cases "s = []")
  case True
  then show ?thesis by (simp add: length_minus_one_def int_of_size_def)
next
  case False
  then have "length s - 1 < 2147483648" "1 \<le> length s"
    using assms by (simp_all add: Suc_leI)
  then show ?thesis
    using False by (simp add: length_minus_one_def int_of_size_small)
qed

subsection \<open>Digits and the value of a digit sequence\<close>

lemma val_unval: "0 \<le> n \<Longrightarrow> n \<le> 9 \<Longrightarrow> val (unval n) = n"
  by (simp add: unval_def val_def)

lemma unval_val: "unval (val c) = c"
proof -
  have "char_of (of_char c - 256 :: int) = char_of ((of_char c - 256) mod 256 :: int)"
    by (simp only: char_of_mod_256)
  also have "\<dots> = c" by simp
  finally show ?thesis by (simp add: unval_def val_def)
qed

lemma is_digit_unval: "0 \<le> n \<Longrightarrow> n \<le> 9 \<Longrightarrow> is_digit (unval n)"
  by (simp add: is_digit_def val_unval)

lemma val_zero_char: "val (CHR ''0'') = 0"
  by (simp add: val_def)

lemma val_eq_0_iff: "val c = 0 \<longleftrightarrow> c = CHR ''0''"
proof
  assume "val c = 0"
  then have "unval (val c) = unval 0" by simp
  then show "c = CHR ''0''" by (simp add: unval_val) (simp add: unval_def char_of_eq_iff)
next
  assume "c = CHR ''0''"
  then show "val c = 0" by (simp add: val_zero_char)
qed

lemma val_eq_1_iff: "val c = 1 \<longleftrightarrow> c = CHR ''1''"
proof
  assume "val c = 1"
  then have "unval (val c) = unval 1" by simp
  then show "c = CHR ''1''" by (simp add: unval_val) (simp add: unval_def char_of_eq_iff)
next
  assume "c = CHR ''1''"
  then show "val c = 1" by (simp add: val_def)
qed

lemma val_inj:
  assumes "val c = val d"
  shows "c = d"
proof -
  have "unval (val c) = unval (val d)" using assms by simp
  then show ?thesis by (simp only: unval_val)
qed

lemma is_digit_chars: "is_digit (CHR ''0'')" "is_digit (CHR ''9'')" "val (CHR ''9'') = 9"
  by (simp_all add: is_digit_def val_def)

lemma str_value_Nil: "str_value [] = 0"
  by (simp add: str_value_def)

lemma str_value_snoc: "str_value (s @ [c]) = 10 * str_value s + val c"
  by (simp add: str_value_def)

lemma str_value_append: "str_value (s @ t) = str_value s * 10 ^ length t + str_value t"
proof (induction t rule: rev_induct)
  case Nil
  show ?case by (simp add: str_value_Nil)
next
  case (snoc c t)
  have "str_value (s @ t @ [c]) = 10 * str_value (s @ t) + val c"
    using str_value_snoc [of "s @ t" c] by simp
  then show ?case
    by (simp add: snoc.IH str_value_snoc algebra_simps)
qed

lemma str_value_Cons: "str_value (c # s) = val c * 10 ^ length s + str_value s"
  using str_value_append [of "[c]" s] str_value_snoc [of "[]" c]
  by (simp add: str_value_Nil)

lemma str_value_bounds:
  "list_all is_digit s \<Longrightarrow> 0 \<le> str_value s \<and> str_value s < 10 ^ length s"
proof (induction s rule: rev_induct)
  case Nil
  show ?case by (simp add: str_value_Nil)
next
  case (snoc c s)
  then have "0 \<le> str_value s" "str_value s + 1 \<le> 10 ^ length s" "0 \<le> val c" "val c \<le> 9"
    by (simp_all add: is_digit_def)
  then show ?case
    by (simp add: str_value_snoc)
qed

lemma str_value_replicate_zero: "str_value (replicate k (CHR ''0'')) = 0"
  by (induction k) (simp_all add: str_value_Nil str_value_Cons val_zero_char)

lemma str_value_inj:
  "list_all is_digit s \<Longrightarrow> list_all is_digit t \<Longrightarrow> length s = length t \<Longrightarrow>
   str_value s = str_value t \<Longrightarrow> s = t"
proof (induction s arbitrary: t rule: rev_induct)
  case Nil
  then show ?case by simp
next
  case (snoc c s)
  from snoc.prems(3) obtain t' d where t: "t = t' @ [d]"
    by (cases t rule: rev_cases) auto
  have dc: "0 \<le> val c" "val c \<le> 9" "0 \<le> val d" "val d \<le> 9"
    using snoc.prems(1,2) t by (simp_all add: is_digit_def)
  have eq: "10 * str_value s + val c = 10 * str_value t' + val d"
    using snoc.prems(4) t by (simp add: str_value_snoc)
  from eq dc have "val c = val d" by presburger
  with eq have "str_value s = str_value t'" by simp
  moreover have "c = d" using \<open>val c = val d\<close> by (rule val_inj)
  ultimately show ?case
    using snoc.IH [of t'] snoc.prems(1,2,3) t by simp
qed

subsection \<open>Prefixes of a digit sequence\<close>

lemma prefix_value_neg: "i < 0 \<Longrightarrow> prefix_value x i = 0"
  by (simp add: prefix_value_def str_value_Nil)

lemma prefix_value_step:
  assumes "0 \<le> i" "i < int (length x)"
  shows "prefix_value x i = 10 * prefix_value x (i - 1) + val (x ! nat i)"
proof -
  have "nat (i + 1) = Suc (nat i)" using assms by simp
  moreover have "nat i < length x" using assms by simp
  ultimately have "take (nat (i + 1)) x = take (nat i) x @ [x ! nat i]"
    by (simp add: take_Suc_conv_app_nth)
  then show ?thesis
    by (simp add: prefix_value_def str_value_snoc)
qed

lemma prefix_value_full: "prefix_value x (int (length x) - 1) = str_value x"
  by (simp add: prefix_value_def)

lemma prefix_value_nonneg: "list_all is_digit x \<Longrightarrow> 0 \<le> prefix_value x i"
  unfolding prefix_value_def
  using str_value_bounds [of "take (nat (i + 1)) x"]
  by (simp add: list_all_iff) (meson in_set_takeD)

lemma digit_nth: "list_all is_digit x \<Longrightarrow> 0 \<le> i \<Longrightarrow> i < int (length x) \<Longrightarrow>
  0 \<le> val (x ! nat i) \<and> val (x ! nat i) \<le> 9"
  by (simp add: list_all_length is_digit_def)

subsection \<open>Scientific notation\<close>

lemma char_of_digit: "char_of (48 + n) = unval (int n)" for n :: nat
proof -
  have "char_of (int (48 + n)) = char_of (48 + n)" by (rule char_of_nat)
  then show ?thesis by (simp add: unval_def add.commute)
qed

lemma put_size_digit: "n < 10 \<Longrightarrow> put_size n = [unval (int n)]"
  by (subst put_size.simps) (simp add: char_of_digit)

lemma put_size_value: "list_all is_digit (put_size n) \<and> str_value (put_size n) = int n"
proof (induction n rule: put_size.induct)
  case (1 n)
  show ?case
  proof (cases "n < 10")
    case True
    then show ?thesis
      by (simp add: put_size_digit is_digit_unval str_value_Cons str_value_Nil val_unval)
  next
    case False
    have c: "char_of (48 + n mod 10) = unval (int (n mod 10))"
      by (rule char_of_digit)
    have "put_size n = put_size (n div 10) @ [unval (int (n mod 10))]"
      using False by (subst put_size.simps) (simp add: c)
    moreover have r: "0 \<le> int (n mod 10)" "int (n mod 10) \<le> 9" by simp_all
    moreover have "10 * int (n div 10) + int (n mod 10) = int n" by presburger
    ultimately show ?thesis
      using "1.IH" [OF False]
      by (simp add: is_digit_unval [OF r] str_value_snoc val_unval [OF r])
  qed
qed

lemma scino_loop_spec:
  assumes "ds \<noteq> []" "1 \<le> i"
  shows "scino_loop ds sd i res =
     Some (res @ map (\<lambda>j. if j < length ds then ds ! j else CHR ''0'') [nat i ..< nat sd])"
  using assms
proof (induction ds sd i res rule: scino_loop.induct)
  case (1 ds sd i res)
  have lm: "length_minus_one ds = length ds - 1"
    using "1.prems"(1) by (simp add: length_minus_one_def)
  show ?case
  proof (cases "i < sd")
    case False
    then show ?thesis using "1.prems"(2) by (subst scino_loop.simps) simp
  next
    case True
    then have upt: "[nat i ..< nat sd] = nat i # [nat (i + 1) ..< nat sd]"
      using "1.prems"(2) by (simp add: upt_conv_Cons nat_add_distrib)
    show ?thesis
    proof (cases "nat i > length_minus_one ds")
      case beyond: True
      then have ge: "\<not> nat i < length ds" using lm by simp
      have "scino_loop ds sd i res = scino_loop ds sd (i + 1) (res @ [CHR ''0''])"
        using True beyond by (subst scino_loop.simps) simp
      also have "\<dots> = Some ((res @ [CHR ''0'']) @
          map (\<lambda>j. if j < length ds then ds ! j else CHR ''0'') [nat (i + 1) ..< nat sd])"
        using "1.IH"(1) [OF True beyond] "1.prems" by simp
      finally show ?thesis unfolding upt using ge by simp
    next
      case inside: False
      then have lt: "nat i < length ds" using lm "1.prems"(1) by (cases ds) auto
      then have at: "str_at ds (nat i) = Some (ds ! nat i)" by (simp add: str_at_def)
      have "scino_loop ds sd i res = scino_loop ds sd (i + 1) (res @ [ds ! nat i])"
        using True inside at by (subst scino_loop.simps) simp
      also have "\<dots> = Some ((res @ [ds ! nat i]) @
          map (\<lambda>j. if j < length ds then ds ! j else CHR ''0'') [nat (i + 1) ..< nat sd])"
        using "1.IH"(2) [OF True inside at] "1.prems" by simp
      finally show ?thesis unfolding upt using lt by simp
    qed
  qed
qed

lemma padded_digits:
  "map (\<lambda>j. if j < length ds then ds ! j else CHR ''0'') [1 ..< Suc k] =
   take k (tl ds) @ replicate (k - length (tl ds)) (CHR ''0'')"
proof (rule nth_equalityI)
  show "length (map (\<lambda>j. if j < length ds then ds ! j else CHR ''0'') [1 ..< Suc k]) =
      length (take k (tl ds) @ replicate (k - length (tl ds)) (CHR ''0''))"
    by (simp add: min_def del: upt_Suc)
next
  fix j
  assume "j < length (map (\<lambda>j. if j < length ds then ds ! j else CHR ''0'') [1 ..< Suc k])"
  then have j: "j < k" by (simp del: upt_Suc)
  then have l: "map (\<lambda>j. if j < length ds then ds ! j else CHR ''0'') [1 ..< Suc k] ! j =
      (if Suc j < length ds then ds ! Suc j else CHR ''0'')"
    by (simp del: upt_Suc)
  show "map (\<lambda>j. if j < length ds then ds ! j else CHR ''0'') [1 ..< Suc k] ! j =
      (take k (tl ds) @ replicate (k - length (tl ds)) (CHR ''0'')) ! j"
  proof (cases "Suc j < length ds")
    case True
    then have "j < length (tl ds)" by simp
    then have "(take k (tl ds) @ replicate (k - length (tl ds)) (CHR ''0'')) ! j = tl ds ! j"
      using j by (simp add: nth_append)
    also have "\<dots> = ds ! Suc j" using True by (simp add: nth_tl)
    finally show ?thesis using l True by simp
  next
    case False
    then have "\<not> j < length (tl ds)" by simp
    then have "(take k (tl ds) @ replicate (k - length (tl ds)) (CHR ''0'')) ! j = CHR ''0''"
      using j by (simp add: nth_append)
    then show ?thesis using l False by simp
  qed
qed

lemma scino_spec:
  assumes "digits v \<noteq> []" "1 \<le> sd"
  shows "scino v sd = Some (scientific_spec (digits v) sd)"
proof -
  let ?ds = "digits v"
  have at0: "str_at ?ds 0 = Some (hd ?ds)"
    using assms(1) by (simp add: str_at_def hd_conv_nth)
  have lm: "length_minus_one ?ds = length ?ds - 1"
    using assms(1) by (simp add: length_minus_one_def)
  show ?thesis
  proof (cases "sd > 1")
    case False
    then show ?thesis
      by (simp add: scino_def at0 lm scientific_spec_def)
  next
    case True
    then have k: "nat sd = Suc (nat (sd - 1))" by simp
    have "scino_loop ?ds sd 1 ([hd ?ds] @ [CHR ''.'']) =
       Some (([hd ?ds] @ [CHR ''.'']) @
         map (\<lambda>j. if j < length ?ds then ?ds ! j else CHR ''0'') [nat 1 ..< nat sd])"
      by (rule scino_loop_spec [OF assms(1)]) simp
    also have "map (\<lambda>j. if j < length ?ds then ?ds ! j else CHR ''0'') [nat 1 ..< nat sd] =
        take (nat (sd - 1)) (tl ?ds) @ replicate (nat (sd - 1) - length (tl ?ds)) (CHR ''0'')"
      unfolding k using padded_digits [of ?ds "nat (sd - 1)"] by simp
    finally show ?thesis
      using True by (simp add: scino_def at0 lm scientific_spec_def)
  qed
qed

subsection \<open>Canonical form\<close>

lemma canonical_is_value: "canonical n \<Longrightarrow> is_value n"
  by (simp add: canonical_def is_value_def)

lemma canonical_nonempty: "canonical n \<Longrightarrow> digits n \<noteq> []"
  by (simp add: canonical_def)

lemma num_value_bounds:
  "is_value n \<Longrightarrow> 0 \<le> num_value n \<and> num_value n < 10 ^ length (digits n)"
  using str_value_bounds [of "digits n"] by (simp add: is_value_def num_value_def)

lemma leading_digit_iff:
  assumes "list_all is_digit (c # t)"
  shows "(c \<noteq> CHR ''0'') = (str_value (c # t) \<ge> 10 ^ length t)"
proof -
  have c: "0 \<le> val c" "val c \<le> 9" and t: "list_all is_digit t"
    using assms by (simp_all add: is_digit_def)
  have tb: "0 \<le> str_value t" "str_value t < 10 ^ length t"
    using str_value_bounds [OF t] by simp_all
  show ?thesis
  proof (cases "c = CHR ''0''")
    case True
    then show ?thesis using tb by (simp add: str_value_Cons val_zero_char)
  next
    case False
    then have "val c \<noteq> 0" by (simp add: val_eq_0_iff)
    then have "1 \<le> val c" using c by simp
    then have "1 * (10::int) ^ length t \<le> val c * 10 ^ length t"
      by (intro mult_right_mono) simp_all
    then have "(10::int) ^ length t \<le> val c * 10 ^ length t + str_value t"
      using tb by linarith
    then show ?thesis using False by (simp add: str_value_Cons)
  qed
qed

lemma canonical_iff:
  assumes "is_value n" "digits n \<noteq> []"
  shows "canonical n =
     (length (digits n) = 1 \<or> num_value n \<ge> 10 ^ (length (digits n) - 1))"
proof -
  obtain c t where ct: "digits n = c # t" using assms(2) by (cases "digits n") auto
  have "list_all is_digit (c # t)" using assms(1) ct by (simp add: is_value_def)
  from leading_digit_iff [OF this] show ?thesis
    using assms(1) ct by (simp add: canonical_def is_value_def num_value_def)
qed

lemma single_digit_zero:
  assumes "is_value n" "length (digits n) = 1"
  shows "(digits n = ''0'') = (num_value n = 0)"
proof -
  obtain c where c: "digits n = [c]"
    using assms(2) by (cases "digits n") auto
  show ?thesis
    by (simp add: c num_value_def str_value_Cons str_value_Nil val_eq_0_iff)
qed

lemma canonical_zero_iff:
  assumes "canonical n"
  shows "(digits n = ''0'') = (num_value n = 0)"
proof (cases "length (digits n) = 1")
  case True
  then show ?thesis using single_digit_zero canonical_is_value [OF assms] by simp
next
  case False
  then have "num_value n \<ge> 10 ^ (length (digits n) - 1)"
    using assms canonical_iff [OF canonical_is_value [OF assms] canonical_nonempty [OF assms]]
    by simp
  moreover have "(0::int) < 10 ^ (length (digits n) - 1)" by simp
  ultimately have "num_value n \<noteq> 0" by linarith
  moreover have "digits n \<noteq> ''0''" using False by auto
  ultimately show ?thesis by simp
qed

lemma canonical_lower_bound:
  assumes "canonical n" "digits n \<noteq> ''0''"
  shows "num_value n \<ge> 10 ^ (length (digits n) - 1)"
proof (cases "length (digits n) = 1")
  case True
  have "0 \<le> num_value n" using num_value_bounds [OF canonical_is_value [OF assms(1)]] by simp
  moreover have "num_value n \<noteq> 0" using canonical_zero_iff [OF assms(1)] assms(2) by simp
  ultimately show ?thesis using True by simp
next
  case False
  then show ?thesis
    using assms(1) canonical_iff [OF canonical_is_value [OF assms(1)] canonical_nonempty [OF assms(1)]]
    by simp
qed

lemma digits_mkNum: "digits (mkNum s) = s"
  by (simp add: mkNum_def)

lemma canonical_replicate:
  assumes "n \<noteq> 0" "is_digit c" "c \<noteq> CHR ''0''"
  shows "canonical (mkNum (replicate n c))"
  using assms by (simp add: canonical_def digits_mkNum list_all_length)

lemma replicate_not_zero:
  assumes "c \<noteq> CHR ''0''"
  shows "digits (mkNum (replicate n c)) \<noteq> ''0''"
  using assms by (cases n) (simp_all add: digits_mkNum)

lemma canonical_positive:
  assumes "canonical n" "digits n \<noteq> ''0''"
  shows "1 \<le> num_value n"
proof -
  have "(1::int) \<le> 10 ^ (length (digits n) - 1)" by simp
  with canonical_lower_bound [OF assms] show ?thesis by linarith
qed

lemma is_digit_examples:
  "is_digit (CHR ''1'')" "is_digit (CHR ''2'')" "is_digit (CHR ''5'')" "is_digit (CHR ''8'')"
  by (simp_all add: is_digit_def val_def)

subsection \<open>The decrement loop\<close>

lemma not_power_of_ten:
  fixes A d P :: int
  assumes "1 \<le> d" "d \<le> 9"
  shows "10 * A + d \<noteq> 10 * P"
  using assms by presburger

lemma decrement_loop_spec:
  assumes "list_all is_digit ds" "i < int (length ds)" "decr \<longrightarrow> prefix_value ds i > 0"
  shows "\<exists>u. decrement_loop ds i decr res = u @ res \<and> list_all is_digit u \<and>
      (if decr then
         str_value u = prefix_value ds i - 1 \<and>
         length u = (if prefix_value ds i = 10 ^ nat i \<and> length ds > 1 then nat i
                     else nat (i + 1))
       else u = take (nat (i + 1)) ds)"
  using assms
proof (induction ds i decr res rule: decrement_loop.induct)
  case (1 ds i decr res)
  show ?case
  proof (cases "i \<ge> 0")
    case False
    then have "\<not> decr" using "1.prems"(3) by (auto simp: prefix_value_neg)
    then show ?thesis
      using False by (subst decrement_loop.simps) simp
  next
    case go: True
    let ?c = "ds ! nat i"
    have cd: "0 \<le> val ?c" "val ?c \<le> 9"
      using digit_nth [OF "1.prems"(1) go "1.prems"(2)] by simp_all
    have step: "prefix_value ds i = 10 * prefix_value ds (i - 1) + val ?c"
      by (rule prefix_value_step [OF go "1.prems"(2)])
    have tk: "take (nat (i + 1)) ds = take (nat i) ds @ [?c]"
      using go "1.prems"(2) by (simp add: nat_add_distrib take_Suc_conv_app_nth)
    show ?thesis
    proof (cases decr)
      case False
      have "decrement_loop ds i decr res = decrement_loop ds (i - 1) False (?c # res)"
        using go False by (subst decrement_loop.simps) simp
      moreover have "\<exists>u. decrement_loop ds (i - 1) False (?c # res) = u @ ?c # res \<and>
          list_all is_digit u \<and> u = take (nat (i - 1 + 1)) ds"
        using "1.IH"(3) [OF go False] "1.prems"(1,2) by simp
      ultimately have "decrement_loop ds i decr res = take (nat (i + 1)) ds @ res"
        using tk by auto
      moreover have "list_all is_digit (take (nat (i + 1)) ds)"
        using "1.prems"(1) by (simp add: list_all_iff) (meson in_set_takeD)
      ultimately show ?thesis using False by simp
    next
      case decr: True
      then have pos: "prefix_value ds i > 0" using "1.prems"(3) by simp
      show ?thesis
      proof (cases "i = 0 \<and> ?c = CHR ''1'' \<and> length ds > 1")
        case True
        then have i0: "i = 0" and c1: "ds ! 0 = CHR ''1''" and l: "length ds > 1"
          by auto
        have "decrement_loop ds i decr res = [] @ res"
          using decr i0 c1 l by (subst decrement_loop.simps) simp
        moreover have "val (ds ! 0) = 1" using c1 by (simp add: val_eq_1_iff)
        then have "prefix_value ds i = 1"
          using i0 step by (simp add: prefix_value_neg)
        ultimately show ?thesis
          using decr i0 l by (simp add: str_value_Nil)
      next
        case nobreak: False
        show ?thesis
        proof (cases "?c = CHR ''0''")
          case zero: True
          have A: "prefix_value ds i = 10 * prefix_value ds (i - 1)"
            using step zero by (simp add: val_zero_char)
          then have pos': "prefix_value ds (i - 1) > 0" using pos by simp
          then have i1: "1 \<le> i" using go by (cases "i = 0") (simp_all add: prefix_value_neg)
          have unfold: "decrement_loop ds i decr res =
              decrement_loop ds (i - 1) True (CHR ''9'' # res)"
            using go decr nobreak zero by (subst decrement_loop.simps) simp
          obtain u where u:
            "decrement_loop ds (i - 1) True (CHR ''9'' # res) = u @ CHR ''9'' # res"
            "list_all is_digit u" "str_value u = prefix_value ds (i - 1) - 1"
            "length u = (if prefix_value ds (i - 1) = 10 ^ nat (i - 1) \<and> length ds > 1
                         then nat (i - 1) else nat (i - 1 + 1))"
            using "1.IH"(1) [OF go decr nobreak zero] "1.prems"(1,2) pos' by auto
          let ?u = "u @ [CHR ''9'']"
          have ni: "nat i = Suc (nat (i - 1))" using i1 by simp
          have 1: "decrement_loop ds i decr res = ?u @ res" using unfold u(1) by simp
          have 2: "list_all is_digit ?u" using u(2) by (simp add: is_digit_chars)
          have 3: "str_value ?u = prefix_value ds i - 1"
            using u(3) A by (simp add: str_value_snoc is_digit_chars)
          have 4: "length ?u = (if prefix_value ds i = 10 ^ nat i \<and> length ds > 1 then nat i
                     else nat (i + 1))"
          proof -
            have n1: "nat (i - 1 + 1) = Suc (nat (i - 1))" "nat (i + 1) = Suc (Suc (nat (i - 1)))"
              using i1 by simp_all
            have pw': "(prefix_value ds i = 10 ^ Suc (nat (i - 1))) =
                (prefix_value ds (i - 1) = 10 ^ nat (i - 1))"
              unfolding A by simp
            show ?thesis
              using u(4) unfolding n1 ni pw' by simp
          qed
          from 1 2 3 4 decr show ?thesis by auto
        next
          case nonzero: False
          then have "val ?c \<noteq> 0" by (simp add: val_eq_0_iff)
          then have c1: "1 \<le> val ?c" using cd by linarith
          have unfold: "decrement_loop ds i decr res =
              decrement_loop ds (i - 1) False (unval (val ?c - 1) # res)"
            by (subst decrement_loop.simps) (simp only: go decr nobreak nonzero if_True if_False)
          have "\<exists>u. decrement_loop ds (i - 1) False (unval (val ?c - 1) # res) =
                 u @ unval (val ?c - 1) # res \<and>
              list_all is_digit u \<and> u = take (nat (i - 1 + 1)) ds"
            using "1.IH"(2) [OF go decr nobreak nonzero] "1.prems"(1,2) by simp
          then have r: "decrement_loop ds (i - 1) False (unval (val ?c - 1) # res) =
                 take (nat i) ds @ unval (val ?c - 1) # res"
            and td: "list_all is_digit (take (nat i) ds)"
            by auto
          let ?u = "take (nat i) ds @ [unval (val ?c - 1)]"
          have 1: "decrement_loop ds i decr res = ?u @ res" using unfold r by simp
          have 2: "list_all is_digit ?u" using td c1 cd by (simp add: is_digit_unval)
          have pv': "str_value (take (nat i) ds) = prefix_value ds (i - 1)"
            by (simp add: prefix_value_def)
          have 3: "str_value ?u = prefix_value ds i - 1"
            using c1 cd by (simp add: str_value_snoc val_unval pv' step)
          have lu: "length ?u = nat (i + 1)"
            using go "1.prems"(2) by (simp add: nat_add_distrib)
          have "\<not> (prefix_value ds i = 10 ^ nat i \<and> length ds > 1)"
          proof (cases "i = 0")
            case True
            show ?thesis
            proof
              assume h: "prefix_value ds i = 10 ^ nat i \<and> length ds > 1"
              then have "val ?c = 1" using step True by (simp add: prefix_value_neg)
              then have "?c = CHR ''1''" by (simp add: val_eq_1_iff)
              with h True nobreak show False by simp
            qed
          next
            case False
            then have ni: "nat i = Suc (nat (i - 1))" using go by simp
            have pw: "(10::int) ^ nat i = 10 * 10 ^ nat (i - 1)"
              by (subst ni) simp
            have "prefix_value ds i \<noteq> 10 ^ nat i"
              unfolding step pw by (rule not_power_of_ten [OF c1 cd(2)])
            then show ?thesis by simp
          qed
          with 1 2 3 lu decr show ?thesis by auto
        qed
      qed
    qed
  qed
qed

lemma decrement_spec:
  assumes "canonical n" "1 \<le> num_value n" "length (digits n) \<le> 2147483648"
  shows "canonical (decrement n)" and "num_value (decrement n) = num_value n - 1"
proof -
  let ?ds = "digits n" and ?l = "length (digits n)"
  have dn: "list_all is_digit ?ds" using assms(1) by (simp add: canonical_def)
  have l1: "1 \<le> ?l" using canonical_nonempty [OF assms(1)] by (simp add: Suc_leI)
  have full: "prefix_value ?ds (int ?l - 1) = num_value n"
    by (simp add: prefix_value_full num_value_def)
  have start: "int_of_size (length_minus_one ?ds) = int ?l - 1"
    by (rule int_of_size_length [OF assms(3)])
  obtain u where u: "decrement_loop ?ds (int ?l - 1) True [] = u @ []"
    "list_all is_digit u" "str_value u = num_value n - 1"
    "length u = (if num_value n = 10 ^ nat (int ?l - 1) \<and> ?l > 1 then nat (int ?l - 1)
                 else nat (int ?l - 1 + 1))"
    using decrement_loop_spec [OF dn, of "int ?l - 1" True "[]"] assms(2)
    unfolding full by auto
  have res: "digits (decrement n) = u"
    using u(1) by (simp add: decrement_def mkNum_def start)
  have nl: "nat (int ?l - 1) = ?l - 1" by simp
  have len: "length u = (if num_value n = 10 ^ (?l - 1) \<and> ?l > 1 then ?l - 1 else ?l)"
    using u(4) unfolding nl by simp
  show "num_value (decrement n) = num_value n - 1"
    using res u(3) by (simp add: num_value_def)
  have val: "is_value (decrement n)" using res u(2) by (simp add: is_value_def)
  have ne: "digits (decrement n) \<noteq> []"
    using len l1 res by (auto split: if_splits)
  have "length u = 1 \<or> str_value u \<ge> 10 ^ (length u - 1)"
  proof (cases "num_value n = 10 ^ (?l - 1) \<and> ?l > 1")
    case True
    then have lu: "length u = ?l - 1" using len by simp
    from True have "?l - 1 = Suc (?l - 1 - 1)" by arith
    then have "(10::int) ^ (?l - 1) = 10 * 10 ^ (?l - 1 - 1)"
      by (metis power_Suc)
    moreover have "(1::int) \<le> 10 ^ (?l - 1 - 1)" by simp
    ultimately have "(10::int) ^ (?l - 1 - 1) \<le> 10 ^ (?l - 1) - 1" by linarith
    then show ?thesis using True lu u(3) by simp
  next
    case False
    have lu: "length u = ?l" unfolding len using False by (rule if_not_P)
    show ?thesis
    proof (cases "?l = 1")
      case True
      then show ?thesis using lu by simp
    next
      case l: False
      then have "digits n \<noteq> ''0''" by auto
      from canonical_lower_bound [OF assms(1) this]
      have "10 ^ (?l - 1) \<le> num_value n" .
      moreover have "num_value n \<noteq> 10 ^ (?l - 1)" using False l l1 by simp
      ultimately have "10 ^ (?l - 1) \<le> num_value n - 1" by linarith
      then show ?thesis using lu u(3) by simp
    qed
  qed
  then show "canonical (decrement n)"
    using canonical_iff [OF val ne] res u(3) by (simp add: num_value_def)
qed


lemma decrement_loop_stop: "i < 0 \<Longrightarrow> decrement_loop ds i decr res = res"
  by (subst decrement_loop.simps) simp

lemma decrement_wrapped:
  assumes "length_minus_one (digits n) = 2147483648"
  shows "decrement n = mkNum []"
  by (simp add: decrement_def assms int_of_size_def decrement_loop_stop)

subsection \<open>The addition loop\<close>

lemma times_ten_le_iff:
  fixes P T c :: int
  assumes "0 \<le> c" "c \<le> 9"
  shows "(10 * P \<le> 10 * T + c) = (P \<le> T)"
  using assms by arith

lemma add_dsum_range:
  assumes "list_all is_digit x" "list_all is_digit y"
    "xind < int (length x)" "yind < int (length y)" "drem = 0 \<or> drem = 1"
  shows "0 \<le> add_dsum x y xind yind drem \<and> add_dsum x y xind yind drem \<le> 19"
  using digit_nth [OF assms(1), of xind] digit_nth [OF assms(2), of yind] assms(3,4,5)
  by (auto simp: add_dsum_def Let_def)

lemma add_dsum_prefix:
  assumes "xind < int (length x)" "yind < int (length y)"
  shows "prefix_value x xind + prefix_value y yind + drem =
         10 * (prefix_value x (xind - 1) + prefix_value y (yind - 1)) +
         add_dsum x y xind yind drem"
proof -
  have x: "prefix_value x xind =
      10 * prefix_value x (xind - 1) + (if xind \<ge> 0 then val (x ! nat xind) else 0)"
    using prefix_value_step [of xind x] assms(1) by (simp add: prefix_value_neg)
  have y: "prefix_value y yind =
      10 * prefix_value y (yind - 1) + (if yind \<ge> 0 then val (y ! nat yind) else 0)"
    using prefix_value_step [of yind y] assms(2) by (simp add: prefix_value_neg)
  show ?thesis
    unfolding x y by (simp add: add_dsum_def Let_def)
qed

text \<open>
  No index overflows when the lower index leaves room for the passes still to come:
  one for every position up to the higher index, and one for a last carry.
\<close>

lemma add_loop_spec:
  assumes "list_all is_digit x" "list_all is_digit y"
    "xind < int (length x)" "yind < int (length y)" "drem = 0 \<or> drem = 1"
    "xind \<ge> 0 \<or> yind \<ge> 0 \<or> drem = 1 \<longrightarrow>
       INT_MIN + max (max xind yind + 1) 0 + 1 \<le> min xind yind"
  shows "\<exists>u. add_loop x y xind yind drem s = Some (u @ s) \<and> list_all is_digit u \<and>
           str_value u = prefix_value x xind + prefix_value y yind + drem \<and>
           length u = nat (max xind yind + 1) +
             (if prefix_value x xind + prefix_value y yind + drem
                   \<ge> 10 ^ nat (max xind yind + 1) then 1 else 0)"
  using assms
proof (induction x y xind yind drem s rule: add_loop.induct)
  case (1 x y xind yind drem s)
  let ?T = "prefix_value x xind + prefix_value y yind + drem"
  let ?M = "nat (max xind yind + 1)"
  let ?d = "add_dsum x y xind yind drem"
  show ?case
  proof (cases "xind \<ge> 0 \<or> yind \<ge> 0 \<or> drem = 1")
    case False
    then have "drem = 0" "xind < 0" "yind < 0" using "1.prems"(5) by auto
    then show ?thesis
      by (subst add_loop.simps) (simp add: prefix_value_neg str_value_Nil)
  next
    case go: True
    define drem' :: int where "drem' = (if ?d \<ge> 10 then 1 else 0)"
    define c :: int where "c = (if ?d \<ge> 10 then ?d - 10 else ?d)"
    let ?T' = "prefix_value x (xind - 1) + prefix_value y (yind - 1) + drem'"
    let ?M' = "nat (max (xind - 1) (yind - 1) + 1)"
    have range: "0 \<le> ?d" "?d \<le> 19"
      using add_dsum_range [OF "1.prems"(1-5)] by simp_all
    have ng: "\<not> (xind \<le> INT_MIN \<or> yind \<le> INT_MIN)"
      using "1.prems"(6) go by auto
    have safe': "xind - 1 \<ge> 0 \<or> yind - 1 \<ge> 0 \<or> drem' = 1 \<longrightarrow>
       INT_MIN + max (max (xind - 1) (yind - 1) + 1) 0 + 1 \<le> min (xind - 1) (yind - 1)"
    proof (cases "xind \<ge> 0 \<or> yind \<ge> 0")
      case True
      then show ?thesis using "1.prems"(6) by auto
    next
      case False
      then have "drem = 1" "?d = 1" using go by (simp_all add: add_dsum_def)
      then have "drem' = 0" by (simp add: drem'_def)
      with False show ?thesis by simp
    qed
    have c: "0 \<le> c" "c \<le> 9" using range by (simp_all add: c_def)
    have d: "?d = 10 * drem' + c" by (simp add: drem'_def c_def)
    have T: "?T = 10 * ?T' + c"
      using add_dsum_prefix [OF "1.prems"(3,4), of drem] d by simp
    have unfold: "add_loop x y xind yind drem s =
        add_loop x y (xind - 1) (yind - 1) drem' (unval c # s)"
      using go ng by (subst add_loop.simps) (simp add: drem'_def c_def)
    have "\<exists>u. add_loop x y (xind - 1) (yind - 1) drem' (unval c # s) = Some (u @ unval c # s) \<and>
           list_all is_digit u \<and> str_value u = ?T' \<and>
           length u = ?M' + (if ?T' \<ge> 10 ^ ?M' then 1 else 0)"
    proof (cases "?d \<ge> 10")
      case True
      then have "drem' = 1" "c = ?d - 10" by (simp_all add: drem'_def c_def)
      then show ?thesis
        using "1.IH"(1) [OF go ng True] "1.prems"(1-4) safe' by simp
    next
      case False
      then have "drem' = 0" "c = ?d" by (simp_all add: drem'_def c_def)
      then show ?thesis
        using "1.IH"(2) [OF go ng False] "1.prems"(1-4) safe' by simp
    qed
    then obtain u where u:
      "add_loop x y (xind - 1) (yind - 1) drem' (unval c # s) = Some (u @ unval c # s)"
      "list_all is_digit u" "str_value u = ?T'"
      "length u = ?M' + (if ?T' \<ge> 10 ^ ?M' then 1 else 0)"
      by blast
    let ?u = "u @ [unval c]"
    have 1: "add_loop x y xind yind drem s = Some (?u @ s)"
      using unfold u(1) by simp
    have 2: "list_all is_digit ?u"
      using u(2) c by (simp add: is_digit_unval)
    have 3: "str_value ?u = ?T"
      using u(3) T c by (simp add: str_value_snoc val_unval)
    have 4: "length ?u = ?M + (if ?T \<ge> 10 ^ ?M then 1 else 0)"
    proof (cases "xind \<ge> 0 \<or> yind \<ge> 0")
      case True
      then have M: "?M = Suc ?M'" by auto
      have "(?T \<ge> 10 ^ ?M) = (?T' \<ge> 10 ^ ?M')"
        unfolding M T power_Suc by (rule times_ten_le_iff [OF c])
      then show ?thesis using u(4) M by simp
    next
      case False
      then have neg: "xind < 0" "yind < 0" by auto
      with go have "drem = 1" by simp
      then have "?d = 1" using neg by (simp add: add_dsum_def)
      then have "drem' = 0" "c = 1" by (simp_all add: drem'_def c_def)
      then show ?thesis
        using u(4) neg \<open>drem = 1\<close> by (simp add: prefix_value_neg)
    qed
    from 1 2 3 4 show ?thesis by blast
  qed
qed

lemma add_dsum_swap: "add_dsum x y xind yind drem = add_dsum y x yind xind drem"
  by (simp add: add_dsum_def Let_def)

lemma add_loop_swap: "add_loop x y xind yind drem s = add_loop y x yind xind drem s"
proof (induction x y xind yind drem s rule: add_loop.induct)
  case (1 x y xind yind drem s)
  show ?case
  proof (cases "xind \<ge> 0 \<or> yind \<ge> 0 \<or> drem = 1")
    case False
    then show ?thesis by (subst add_loop.simps, subst (2) add_loop.simps) simp
  next
    case go: True
    then have go': "yind \<ge> 0 \<or> xind \<ge> 0 \<or> drem = 1" by auto
    show ?thesis
    proof (cases "xind \<le> INT_MIN \<or> yind \<le> INT_MIN")
      case True
      then have "yind \<le> INT_MIN \<or> xind \<le> INT_MIN" by auto
      with True go go' show ?thesis
        by (subst add_loop.simps, subst (2) add_loop.simps) simp
    next
      case ng: False
      then have ng': "\<not> (yind \<le> INT_MIN \<or> xind \<le> INT_MIN)" by auto
      show ?thesis
      proof (cases "add_dsum x y xind yind drem \<ge> 10")
        case True
        have "add_loop x y xind yind drem s =
            add_loop x y (xind - 1) (yind - 1) 1 (unval (add_dsum x y xind yind drem - 10) # s)"
          using go ng True by (subst add_loop.simps) simp
        also have "\<dots> =
            add_loop y x (yind - 1) (xind - 1) 1 (unval (add_dsum x y xind yind drem - 10) # s)"
          by (rule "1.IH"(1) [OF go ng True])
        also have "\<dots> = add_loop y x yind xind drem s"
          using go' ng' True by (subst (2) add_loop.simps) (simp add: add_dsum_swap [of y x])
        finally show ?thesis .
      next
        case False
        have "add_loop x y xind yind drem s =
            add_loop x y (xind - 1) (yind - 1) 0 (unval (add_dsum x y xind yind drem) # s)"
          using go ng False by (subst add_loop.simps) simp
        also have "\<dots> =
            add_loop y x (yind - 1) (xind - 1) 0 (unval (add_dsum x y xind yind drem) # s)"
          by (rule "1.IH"(2) [OF go ng False])
        also have "\<dots> = add_loop y x yind xind drem s"
          using go' ng' False by (subst (2) add_loop.simps) (simp add: add_dsum_swap [of y x])
        finally show ?thesis .
      qed
    qed
  qed
qed

lemma add_commute: "add m n = add n m"
proof -
  consider "length (digits m) > length (digits n)" | "length (digits m) < length (digits n)"
    | "length (digits m) = length (digits n)" by linarith
  then show ?thesis
  proof cases
    case 1 then show ?thesis by (simp add: add_def)
  next
    case 2 then show ?thesis by (simp add: add_def)
  next
    case 3 then show ?thesis
      using add_loop_swap [of "digits m" "digits n" "int_of_size (length_minus_one (digits m))"
          "int_of_size (length_minus_one (digits n))" 0 "[]"]
      by (simp add: add_def)
  qed
qed

text \<open>Addition of Values of at most 2147483646 digits.\<close>

lemma add_spec:
  assumes "is_value m" "is_value n"
    "length (digits m) \<le> 2147483646" "length (digits n) \<le> 2147483646"
  shows "\<exists>r. add m n = Some r \<and> is_value r \<and>
           num_value r = num_value m + num_value n \<and>
           length (digits r) = max (length (digits m)) (length (digits n)) +
             (if num_value m + num_value n \<ge> 10 ^ max (length (digits m)) (length (digits n))
              then 1 else 0)"
proof -
  let ?x = "digits m" and ?y = "digits n"
  have dm: "list_all is_digit ?x" and dn: "list_all is_digit ?y"
    using assms(1,2) by (simp_all add: is_value_def)
  have ix: "int_of_size (length_minus_one ?x) = int (length ?x) - 1"
    and iy: "int_of_size (length_minus_one ?y) = int (length ?y) - 1"
    using assms(3,4) by (simp_all add: int_of_size_length)
  have safe: "int (length ?x) - 1 \<ge> 0 \<or> int (length ?y) - 1 \<ge> 0 \<or> (0::int) = 1 \<longrightarrow>
       INT_MIN + max (max (int (length ?x) - 1) (int (length ?y) - 1) + 1) 0 + 1
         \<le> min (int (length ?x) - 1) (int (length ?y) - 1)"
    using assms(3,4) by (auto simp: INT_MIN_def)
  obtain u where u:
    "add_loop ?x ?y (int (length ?x) - 1) (int (length ?y) - 1) 0 [] = Some (u @ [])"
    "list_all is_digit u"
    "str_value u = prefix_value ?x (int (length ?x) - 1) + prefix_value ?y (int (length ?y) - 1) + 0"
    "length u = nat (max (int (length ?x) - 1) (int (length ?y) - 1) + 1) +
       (if prefix_value ?x (int (length ?x) - 1) + prefix_value ?y (int (length ?y) - 1) + 0
           \<ge> 10 ^ nat (max (int (length ?x) - 1) (int (length ?y) - 1) + 1) then 1 else 0)"
    using add_loop_spec [OF dm dn _ _ _ safe, of "[]"] by auto
  have M: "nat (max (int (length ?x) - 1) (int (length ?y) - 1) + 1) = max (length ?x) (length ?y)"
    by auto
  have "add m n = map_option mkNum
      (add_loop ?x ?y (int (length ?x) - 1) (int (length ?y) - 1) 0 [])"
  proof (cases "length ?x \<ge> length ?y")
    case True
    then show ?thesis by (simp add: add_def ix iy)
  next
    case False
    then have "add m n = map_option mkNum
        (add_loop ?y ?x (int (length ?y) - 1) (int (length ?x) - 1) 0 [])"
      by (simp add: add_def ix iy)
    then show ?thesis by (simp add: add_loop_swap [of ?y ?x])
  qed
  then have res: "add m n = Some (mkNum u)" using u(1) by simp
  have 1: "is_value (mkNum u)" using u(2) by (simp add: is_value_def mkNum_def)
  have 2: "num_value (mkNum u) = num_value m + num_value n"
    using u(3) by (simp add: num_value_def prefix_value_full mkNum_def)
  have 3: "length (digits (mkNum u)) = max (length (digits m)) (length (digits n)) +
           (if num_value m + num_value n \<ge> 10 ^ max (length (digits m)) (length (digits n))
            then 1 else 0)"
    using u(4) unfolding M by (simp add: num_value_def prefix_value_full mkNum_def)
  from res 1 2 3 show ?thesis by blast
qed

text \<open>
  Beyond \<open>INT_MAX\<close> characters both indices start negative and the loop never runs.
\<close>

lemma add_loop_stop: "xind < 0 \<Longrightarrow> yind < 0 \<Longrightarrow> add_loop x y xind yind 0 s = Some s"
  by (subst add_loop.simps) simp

subsection \<open>Partial products\<close>

lemma zeroes_loop_replicate:
  "zeroes_loop i z dt = replicate (nat (z - i)) (CHR ''0'') @ dt"
proof (induction i z dt rule: zeroes_loop.induct)
  case (1 i z dt)
  show ?case
  proof (cases "i < z")
    case True
    then have "nat (z - i) = Suc (nat (z - (i + 1)))" by simp
    then show ?thesis
      using True "1.IH" [OF True]
      by (subst zeroes_loop.simps) (simp add: replicate_app_Cons_same)
  next
    case False
    then show ?thesis by (subst zeroes_loop.simps) simp
  qed
qed

lemma digit_product_range:
  fixes a v drem :: int
  assumes "0 \<le> a" "a \<le> 9" "0 \<le> v" "v \<le> 9" "0 \<le> drem" "drem \<le> 8"
  shows "0 \<le> a * v + drem \<and> a * v + drem \<le> 89"
proof -
  have "a * v \<le> 9 * 9" using assms by (intro mult_mono) simp_all
  moreover have "0 \<le> a * v" using assms by simp
  ultimately show ?thesis using assms by simp
qed

lemma multiply_inner_spec:
  assumes "list_all is_digit x" "is_digit yd" "xind < int (length x)" "0 \<le> drem" "drem \<le> 8"
  shows "\<exists>u out. multiply_inner x yd xind drem dt = (u @ dt, out) \<and> list_all is_digit u \<and>
           length u = nat (xind + 1) \<and> 0 \<le> out \<and> out \<le> 8 \<and>
           out * 10 ^ length u + str_value u = prefix_value x xind * val yd + drem"
  using assms
proof (induction x yd xind drem dt rule: multiply_inner.induct)
  case (1 x yd xind drem dt)
  show ?case
  proof (cases "xind \<ge> 0")
    case False
    then show ?thesis
      using "1.prems"
      by (subst multiply_inner.simps) (simp add: prefix_value_neg str_value_Nil)
  next
    case go: True
    define dprod where "dprod = val (x ! nat xind) * val yd + drem"
    define drem' where "drem' = (if dprod \<ge> 10 then dprod div 10 else 0)"
    define c where "c = (if dprod \<ge> 10 then dprod - (dprod div 10) * 10 else dprod)"
    have v: "0 \<le> val yd" "val yd \<le> 9" using "1.prems"(2) by (simp_all add: is_digit_def)
    have a: "0 \<le> val (x ! nat xind)" "val (x ! nat xind) \<le> 9"
      using digit_nth [OF "1.prems"(1) go "1.prems"(3)] by simp_all
    have range: "0 \<le> dprod" "dprod \<le> 89"
      using digit_product_range [OF a v "1.prems"(4,5)] by (simp_all add: dprod_def)
    have c: "0 \<le> c" "c \<le> 9" using range by (auto simp: c_def)
    have drem': "0 \<le> drem'" "drem' \<le> 8" using range by (auto simp: drem'_def)
    have dprod: "dprod = 10 * drem' + c" by (simp add: drem'_def c_def)
    have unfold: "multiply_inner x yd xind drem dt =
        multiply_inner x yd (xind - 1) drem' (unval c # dt)"
      using go
      by (subst multiply_inner.simps) (simp add: Let_def dprod_def [symmetric] drem'_def c_def)
    have "\<exists>u out. multiply_inner x yd (xind - 1) drem' (unval c # dt) = (u @ unval c # dt, out) \<and>
           list_all is_digit u \<and> length u = nat (xind - 1 + 1) \<and> 0 \<le> out \<and> out \<le> 8 \<and>
           out * 10 ^ length u + str_value u = prefix_value x (xind - 1) * val yd + drem'"
    proof (cases "dprod \<ge> 10")
      case True
      then have eq: "drem' = dprod div 10" "c = dprod - dprod div 10 * 10"
        by (simp_all add: drem'_def c_def)
      have "0 \<le> dprod div 10" "dprod div 10 \<le> 8" using drem' eq by simp_all
      with "1.IH"(1) [OF go dprod_def True refl] "1.prems"(1,2,3)
      show ?thesis unfolding eq by simp
    next
      case False
      then have eq: "drem' = 0" "c = dprod"
        by (simp_all add: drem'_def c_def)
      from "1.IH"(2) [OF go dprod_def False] "1.prems"(1,2,3)
      show ?thesis unfolding eq by simp
    qed
    then obtain u out where u:
      "multiply_inner x yd (xind - 1) drem' (unval c # dt) = (u @ unval c # dt, out)"
      "list_all is_digit u" "length u = nat (xind - 1 + 1)" "0 \<le> out" "out \<le> 8"
      "out * 10 ^ length u + str_value u = prefix_value x (xind - 1) * val yd + drem'"
      by blast
    let ?u = "u @ [unval c]"
    have 1: "multiply_inner x yd xind drem dt = (?u @ dt, out)"
      using unfold u(1) by simp
    have 2: "list_all is_digit ?u"
      using u(2) c by (simp add: is_digit_unval)
    have 3: "length ?u = nat (xind + 1)"
      using u(3) go by simp
    have "out * 10 ^ length ?u + str_value ?u = 10 * (out * 10 ^ length u + str_value u) + c"
      using c by (simp add: str_value_snoc val_unval algebra_simps)
    also have "\<dots> = 10 * (prefix_value x (xind - 1) * val yd) + dprod"
      unfolding u(6) dprod by (simp add: algebra_simps)
    also have "\<dots> = prefix_value x xind * val yd + drem"
      unfolding prefix_value_step [OF go "1.prems"(3)] dprod_def by (simp add: algebra_simps)
    finally have 4: "out * 10 ^ length ?u + str_value ?u = prefix_value x xind * val yd + drem" .
    from 1 2 3 4 u(4,5) show ?thesis by blast
  qed
qed

text \<open>The body of the outer loop builds the partial product for one digit of \<open>y\<close>.\<close>

lemma partial_product_spec:
  assumes "list_all is_digit x" "is_digit yd" "0 \<le> z"
  shows "\<exists>p. (let dtotal = zeroes_loop 0 z [];
                 (dtotal, drem) = multiply_inner x yd (int (length x) - 1) 0 dtotal;
                 dtotal = (if drem > 0 then unval drem # dtotal else dtotal)
             in F dtotal) = F p \<and>
           list_all is_digit p \<and>
           str_value p = str_value x * val yd * 10 ^ nat z \<and>
           length p = length x + nat z +
             (if str_value p \<ge> 10 ^ (length x + nat z) then 1 else 0)"
proof -
  let ?zs = "replicate (nat z) (CHR ''0'')"
  have zs: "zeroes_loop 0 z [] = ?zs"
    by (simp add: zeroes_loop_replicate)
  obtain u out where u:
    "multiply_inner x yd (int (length x) - 1) 0 ?zs = (u @ ?zs, out)"
    "list_all is_digit u" "length u = length x" "0 \<le> out" "out \<le> 8"
    "out * 10 ^ length u + str_value u = str_value x * val yd"
    using multiply_inner_spec [OF assms(1,2), of "int (length x) - 1" 0 ?zs]
    by (auto simp: prefix_value_full)
  have ub: "0 \<le> str_value u" "str_value u < 10 ^ length x"
    using str_value_bounds [OF u(2)] u(3) by simp_all
  define p where "p = (if out > 0 then unval out # u @ ?zs else u @ ?zs)"
  have 1: "(let dtotal = zeroes_loop 0 z [];
                 (dtotal, drem) = multiply_inner x yd (int (length x) - 1) 0 dtotal;
                 dtotal = (if drem > 0 then unval drem # dtotal else dtotal)
             in F dtotal) = F p"
    by (simp add: zs u(1) p_def)
  have zdig: "list_all is_digit ?zs"
    by (simp add: list_all_iff is_digit_chars)
  have 2: "list_all is_digit p"
    using u(2,4,5) zdig by (simp add: p_def is_digit_unval)
  have uz: "str_value (u @ ?zs) = str_value u * 10 ^ nat z"
    by (simp add: str_value_append str_value_replicate_zero)
  have "str_value p = (out * 10 ^ length u + str_value u) * 10 ^ nat z"
  proof (cases "out > 0")
    case True
    then show ?thesis
      using u(4,5) uz by (simp add: p_def str_value_Cons val_unval algebra_simps power_add)
  next
    case False
    then have "out = 0" using u(4) by simp
    then show ?thesis using uz by (simp add: p_def)
  qed
  then have 3: "str_value p = str_value x * val yd * 10 ^ nat z"
    using u(6) by simp
  have "(str_value p \<ge> 10 ^ (length x + nat z)) = (out > 0)"
  proof -
    have "(str_value p \<ge> 10 ^ (length x + nat z)) =
          (10 ^ length x * 10 ^ nat z \<le> (out * 10 ^ length x + str_value u) * 10 ^ nat z)"
      using 3 u(6) u(3) by (simp add: power_add)
    also have "\<dots> = (10 ^ length x \<le> out * 10 ^ length x + str_value u)"
      by simp
    also have "\<dots> = (out > 0)"
    proof
      assume le: "(10::int) ^ length x \<le> out * 10 ^ length x + str_value u"
      show "out > 0"
      proof (rule ccontr)
        assume "\<not> out > 0"
        then have "out = 0" using u(4) by simp
        with le ub show False by simp
      qed
    next
      assume "out > 0"
      then have "1 * (10::int) ^ length x \<le> out * 10 ^ length x"
        by (intro mult_right_mono) simp_all
      with ub show "(10::int) ^ length x \<le> out * 10 ^ length x + str_value u" by linarith
    qed
    finally show ?thesis .
  qed
  then have 4: "length p = length x + nat z +
             (if str_value p \<ge> 10 ^ (length x + nat z) then 1 else 0)"
    using u(3) by (simp add: p_def)
  from 1 2 3 4 show ?thesis by blast
qed

subsection \<open>The multiplication loop\<close>

lemma multiply_loop_stop: "yind < 0 \<Longrightarrow> multiply_loop x y yind zeroes product = Some product"
  by (subst multiply_loop.simps) simp

lemma multiply_loop_step:
  assumes "0 \<le> yind" "list_all is_digit (digits x)" "is_digit (digits y ! nat yind)" "0 \<le> zeroes"
    "length (digits x) \<le> 2147483648"
  shows "\<exists>p. multiply_loop x y yind zeroes product =
               (case add product (mkNum p) of
                  None \<Rightarrow> None
                | Some product' \<Rightarrow>
                    if zeroes \<ge> INT_MAX then None
                    else multiply_loop x y (yind - 1) (zeroes + 1) product') \<and>
           list_all is_digit p \<and>
           str_value p = str_value (digits x) * val (digits y ! nat yind) * 10 ^ nat zeroes \<and>
           length p = length (digits x) + nat zeroes +
             (if str_value p \<ge> 10 ^ (length (digits x) + nat zeroes) then 1 else 0)"
proof -
  let ?F = "\<lambda>dt. case add product (mkNum dt) of
                  None \<Rightarrow> None
                | Some product' \<Rightarrow>
                    if zeroes \<ge> INT_MAX then None
                    else multiply_loop x y (yind - 1) (zeroes + 1) product'"
  have "multiply_loop x y yind zeroes product =
      (let dtotal = zeroes_loop 0 zeroes [];
           (dtotal, drem) = multiply_inner (digits x) (digits y ! nat yind)
                              (int (length (digits x)) - 1) 0 dtotal;
           dtotal = (if drem > 0 then unval drem # dtotal else dtotal)
       in ?F dtotal)"
    using assms(1) by (subst multiply_loop.simps) (simp add: int_of_size_length [OF assms(5)])
  with partial_product_spec [OF assms(2,3,4), of ?F] show ?thesis
    by auto
qed

lemma value_product_less:
  fixes a b :: int
  assumes "0 \<le> a" "a < 10 ^ k" "0 \<le> b" "b < 10 ^ l"
  shows "a * b < 10 ^ (k + l)"
proof -
  have "a * b < 10 ^ k * 10 ^ l"
    using assms by (intro mult_strict_mono') simp_all
  then show ?thesis by (simp add: power_add)
qed

text \<open>
  The invariant of the outer loop, for operands of at most 2147483646 digits
  together: after the digits of \<open>y\<close> behind \<open>yind\<close>, \<open>product\<close> denotes \<open>x\<close> times the
  number those digits denote, and its length is fixed by its value.
\<close>

lemma multiply_loop_spec:
  assumes dx: "list_all is_digit (digits x)" and dy: "list_all is_digit (digits y)"
    and nx: "digits x \<noteq> []" and ny: "digits y \<noteq> []"
    and bound: "length (digits x) + length (digits y) \<le> 2147483646"
    and yind: "- 1 \<le> yind" "yind < int (length (digits y))"
    and zeroes: "zeroes = int (length (digits y)) - 1 - yind"
    and pv: "is_value product"
      "num_value product = str_value (digits x) * str_value (drop (nat (yind + 1)) (digits y))"
    and pl: "zeroes = 0 \<and> digits product = ''0'' \<or>
       zeroes \<ge> 1 \<and> length (digits product) = length (digits x) + nat zeroes - 1 +
         (if num_value product \<ge> 10 ^ (length (digits x) + nat zeroes - 1) then 1 else 0)"
  shows "\<exists>r. multiply_loop x y yind zeroes product = Some r \<and> is_value r \<and>
     num_value r = str_value (digits x) * str_value (digits y) \<and>
     length (digits r) =
       length (digits x) + length (digits y) - 1 +
       (if num_value r \<ge> 10 ^ (length (digits x) + length (digits y) - 1) then 1 else 0)"
  using yind zeroes pv pl
proof (induction "nat (yind + 1)" arbitrary: yind zeroes product)
  case 0
  then have y: "yind = - 1" by simp
  then have z: "zeroes = int (length (digits y))" "zeroes \<ge> 1"
    using "0.prems"(3) ny by (simp_all add: Suc_leI)
  have r: "multiply_loop x y yind zeroes product = Some product"
    using y by (simp add: multiply_loop_stop)
  have nz: "nat zeroes = length (digits y)" using z by simp
  have v: "num_value product = str_value (digits x) * str_value (digits y)"
    using "0.prems"(5) y by simp
  have "length (digits product) = length (digits x) + nat zeroes - 1 +
         (if num_value product \<ge> 10 ^ (length (digits x) + nat zeroes - 1) then 1 else 0)"
    using "0.prems"(6) z(2) by linarith
  then have "length (digits product) = length (digits x) + length (digits y) - 1 +
         (if num_value product \<ge> 10 ^ (length (digits x) + length (digits y) - 1) then 1 else 0)"
    unfolding nz .
  with "0.prems"(4) v r show ?case by blast
next
  case (Suc n)
  then have go: "0 \<le> yind" by simp
  let ?lx = "length (digits x)"
  let ?yd = "digits y ! nat yind"
  have zn: "0 \<le> zeroes" using Suc.prems(2,3) by simp
  have zly: "nat zeroes + 1 \<le> length (digits y)" using Suc.prems(2,3) go by simp
  have ydig: "is_digit ?yd"
    using dy go Suc.prems(2) by (simp add: list_all_length)
  have lxb: "?lx \<le> 2147483648" using bound by simp
  obtain p where p:
    "multiply_loop x y yind zeroes product =
       (case add product (mkNum p) of
          None \<Rightarrow> None
        | Some product' \<Rightarrow>
            if zeroes \<ge> INT_MAX then None
            else multiply_loop x y (yind - 1) (zeroes + 1) product')"
    "list_all is_digit p"
    "str_value p = str_value (digits x) * val ?yd * 10 ^ nat zeroes"
    "length p = ?lx + nat zeroes + (if str_value p \<ge> 10 ^ (?lx + nat zeroes) then 1 else 0)"
    using multiply_loop_step [OF go dx ydig zn lxb, of product] by blast
  have pval: "is_value (mkNum p)" "num_value (mkNum p) = str_value p" "digits (mkNum p) = p"
    using p(2) by (simp_all add: is_value_def num_value_def mkNum_def)
  have lx: "1 \<le> ?lx" using nx by (simp add: Suc_leI)
  have plen: "length (digits product) \<le> ?lx + nat zeroes"
    using Suc.prems(6) lx by auto
  have pb: "length (digits product) \<le> 2147483646" "length (digits (mkNum p)) \<le> 2147483646"
    using plen p(4) zly bound unfolding pval(3) by (simp_all split: if_splits)
  obtain q where q: "add product (mkNum p) = Some q" "is_value q"
    "num_value q = num_value product + num_value (mkNum p)"
    "length (digits q) = max (length (digits product)) (length (digits (mkNum p))) +
       (if num_value product + num_value (mkNum p)
             \<ge> 10 ^ max (length (digits product)) (length (digits (mkNum p))) then 1 else 0)"
    using add_spec [OF Suc.prems(4) pval(1) pb] by blast
  have zmax: "\<not> zeroes \<ge> INT_MAX"
    using zly bound by (simp add: INT_MAX_def)
  have unfold: "multiply_loop x y yind zeroes product =
      multiply_loop x y (yind - 1) (zeroes + 1) q"
    unfolding p(1) q(1) using zmax by simp
  have dropy: "drop (nat yind) (digits y) = ?yd # drop (nat (yind + 1)) (digits y)"
    using go Suc.prems(2) by (simp add: Cons_nth_drop_Suc nat_add_distrib)
  have lent: "length (drop (nat (yind + 1)) (digits y)) = nat zeroes"
    using Suc.prems(2,3) go by simp
  have Pval: "num_value q = str_value (digits x) * str_value (drop (nat yind) (digits y))"
    unfolding q(3) Suc.prems(5) pval(2) p(3) dropy str_value_Cons lent
    by (simp add: algebra_simps)
  have xb: "0 \<le> str_value (digits x)" "str_value (digits x) < 10 ^ ?lx"
    using str_value_bounds [OF dx] by simp_all
  have "list_all is_digit (drop (nat yind) (digits y))"
    using dy by (simp add: list_all_iff) (meson in_set_dropD)
  from str_value_bounds [OF this]
  have yb: "0 \<le> str_value (drop (nat yind) (digits y))"
    "str_value (drop (nat yind) (digits y)) < 10 ^ (nat zeroes + 1)"
    using dropy lent by simp_all
  have Pless: "num_value q < 10 ^ (?lx + nat zeroes + 1)"
    unfolding Pval using value_product_less [OF xb yb] by (simp add: add.assoc)
  have prod_nonneg: "0 \<le> num_value product"
    using str_value_bounds [of "digits product"] Suc.prems(4)
    by (simp add: is_value_def num_value_def)
  have mx: "max (length (digits product)) (length (digits (mkNum p))) = length p"
    using plen p(4) pval(3) by simp
  have A3: "length (digits q) = length p + (if num_value q \<ge> 10 ^ length p then 1 else 0)"
    using q(4) unfolding mx q(3) [symmetric] .
  have Plen: "length (digits q) = ?lx + nat zeroes +
      (if num_value q \<ge> 10 ^ (?lx + nat zeroes) then 1 else 0)"
  proof (cases "str_value p \<ge> 10 ^ (?lx + nat zeroes)")
    case True
    then have lp: "length p = ?lx + nat zeroes + 1" using p(4) by simp
    have "\<not> num_value q \<ge> 10 ^ length p"
      using Pless unfolding lp by simp
    then have "length (digits q) = length p"
      using A3 by simp
    moreover have "num_value q \<ge> 10 ^ (?lx + nat zeroes)"
      unfolding q(3) pval(2) using True prod_nonneg by linarith
    ultimately show ?thesis using lp by simp
  next
    case False
    then have lp: "length p = ?lx + nat zeroes" using p(4) by simp
    show ?thesis
      using A3 unfolding lp .
  qed
  have n: "n = nat (yind - 1 + 1)" using Suc.hyps(2) by simp
  have z': "zeroes + 1 = int (length (digits y)) - 1 - (yind - 1)"
    using Suc.prems(3) by simp
  have nz: "nat (zeroes + 1) = nat zeroes + 1" using zn by simp
  have IH: "\<exists>r. multiply_loop x y (yind - 1) (zeroes + 1) q = Some r \<and> is_value r \<and>
     num_value r = str_value (digits x) * str_value (digits y) \<and>
     length (digits r) =
       length (digits x) + length (digits y) - 1 +
       (if num_value r \<ge> 10 ^ (length (digits x) + length (digits y) - 1) then 1 else 0)"
  proof (rule Suc.hyps(1) [OF n _ _ z' q(2)])
    show "- 1 \<le> yind - 1" using go by simp
    show "yind - 1 < int (length (digits y))" using Suc.prems(2) by simp
    show "num_value q = str_value (digits x) * str_value (drop (nat (yind - 1 + 1)) (digits y))"
      using Pval by simp
    show "zeroes + 1 = 0 \<and> digits q = ''0'' \<or>
       zeroes + 1 \<ge> 1 \<and> length (digits q) = ?lx + nat (zeroes + 1) - 1 +
         (if num_value q \<ge> 10 ^ (?lx + nat (zeroes + 1) - 1) then 1 else 0)"
      using Plen zn unfolding nz by simp
  qed
  show ?case unfolding unfold by (rule IH)
qed

subsection \<open>Multiplication\<close>

lemma Num_eqI: "digits (a::Num) = digits b \<Longrightarrow> a = b"
  by simp

lemma zero_Num: "is_value (mkNum ''0'')" "num_value (mkNum ''0'') = 0" "digits (mkNum ''0'') = ''0''"
  by (simp_all add: is_value_def num_value_def mkNum_def is_digit_chars str_value_Cons
      str_value_Nil val_zero_char)

lemma multiply_loop_start:
  assumes "is_value x" "is_value y" "digits x \<noteq> []" "digits y \<noteq> []"
    "length (digits x) + length (digits y) \<le> 2147483646"
  shows "\<exists>r. multiply_loop x y (int (length (digits y)) - 1) 0 (mkNum ''0'') = Some r \<and>
     is_value r \<and> num_value r = num_value x * num_value y \<and>
     length (digits r) =
       length (digits x) + length (digits y) - 1 +
       (if num_value r \<ge> 10 ^ (length (digits x) + length (digits y) - 1) then 1 else 0)"
proof -
  have dx: "list_all is_digit (digits x)" and dy: "list_all is_digit (digits y)"
    using assms(1,2) by (simp_all add: is_value_def)
  have "\<exists>r. multiply_loop x y (int (length (digits y)) - 1) 0 (mkNum ''0'') = Some r \<and>
     is_value r \<and> num_value r = str_value (digits x) * str_value (digits y) \<and>
     length (digits r) =
       length (digits x) + length (digits y) - 1 +
       (if num_value r \<ge> 10 ^ (length (digits x) + length (digits y) - 1) then 1 else 0)"
  proof (rule multiply_loop_spec [OF dx dy assms(3,4,5)])
    show "- 1 \<le> int (length (digits y)) - 1" by simp
    show "int (length (digits y)) - 1 < int (length (digits y))" by simp
    show "0 = int (length (digits y)) - 1 - (int (length (digits y)) - 1)" by simp
    show "is_value (mkNum ''0'')" by (rule zero_Num)
    show "num_value (mkNum ''0'') =
        str_value (digits x) * str_value (drop (nat (int (length (digits y)) - 1 + 1)) (digits y))"
      by (simp add: zero_Num str_value_Nil)
    show "0 = 0 \<and> digits (mkNum ''0'') = ''0'' \<or>
       (0::int) \<ge> 1 \<and> length (digits (mkNum ''0'')) = length (digits x) + nat 0 - 1 +
         (if num_value (mkNum ''0'') \<ge> 10 ^ (length (digits x) + nat 0 - 1) then 1 else 0)"
      by (simp add: zero_Num)
  qed
  then show ?thesis by (simp add: num_value_def)
qed

lemma multiply_unfold:
  assumes "digits m \<noteq> ''0''" "digits n \<noteq> ''0''"
  shows "multiply m n =
     (if length (digits m) \<ge> length (digits n)
      then multiply_loop m n (int_of_size (length_minus_one (digits n))) 0 (mkNum ''0'')
      else multiply_loop n m (int_of_size (length_minus_one (digits m))) 0 (mkNum ''0''))"
  using assms by (simp add: multiply_def)

text \<open>Multiplication of non-empty Values, neither "0", of at most 2147483646 digits together.\<close>

lemma multiply_spec:
  assumes "is_value m" "is_value n" "digits m \<noteq> []" "digits n \<noteq> []"
    "digits m \<noteq> ''0''" "digits n \<noteq> ''0''"
    "length (digits m) + length (digits n) \<le> 2147483646"
  shows "\<exists>r. multiply m n = Some r \<and> is_value r \<and>
     num_value r = num_value m * num_value n \<and>
     length (digits r) = length (digits m) + length (digits n) - 1 +
       (if num_value r \<ge> 10 ^ (length (digits m) + length (digits n) - 1) then 1 else 0)"
proof (cases "length (digits m) \<ge> length (digits n)")
  case True
  have "length (digits n) \<le> 2147483648" using assms(7) by simp
  then have "multiply m n = multiply_loop m n (int (length (digits n)) - 1) 0 (mkNum ''0'')"
    using multiply_unfold [OF assms(5,6)] True by (simp add: int_of_size_length)
  then show ?thesis
    using multiply_loop_start [OF assms(1,2,3,4,7)] by simp
next
  case False
  have b: "length (digits n) + length (digits m) \<le> 2147483646" using assms(7) by simp
  have "length (digits m) \<le> 2147483648" using assms(7) by simp
  then have "multiply m n = multiply_loop n m (int (length (digits m)) - 1) 0 (mkNum ''0'')"
    using multiply_unfold [OF assms(5,6)] False by (simp add: int_of_size_length)
  then show ?thesis
    using multiply_loop_start [OF assms(2,1,4,3) b] by (simp add: mult.commute add.commute)
qed

lemma int_of_size_empty: "int_of_size (length_minus_one []) = - 1"
  by (simp add: length_minus_one_def int_of_size_def)

lemma multiply_empty:
  assumes "digits m = [] \<or> digits n = []"
  shows "multiply m n = Some (mkNum ''0'')"
proof (cases "digits m = ''0'' \<or> digits n = ''0''")
  case True
  then show ?thesis by (simp add: multiply_def)
next
  case False
  then have nz: "digits m \<noteq> ''0''" "digits n \<noteq> ''0''" by simp_all
  show ?thesis
  proof (cases "length (digits m) \<ge> length (digits n)")
    case True
    with assms have "digits n = []" by auto
    then show ?thesis
      using True multiply_unfold [OF nz] by (simp add: int_of_size_empty multiply_loop_stop)
  next
    case False
    with assms have "digits m = []" by auto
    then show ?thesis
      using False multiply_unfold [OF nz] by (simp add: int_of_size_empty multiply_loop_stop)
  qed
qed

lemma multiply_value_general:
  assumes "is_value m" "is_value n" "length (digits m) + length (digits n) \<le> 2147483646"
  shows "\<exists>r. multiply m n = Some r \<and> is_value r \<and> num_value r = num_value m * num_value n"
proof (cases "digits m = ''0'' \<or> digits n = ''0''")
  case True
  then have "multiply m n = Some (mkNum ''0'')" by (simp add: multiply_def)
  moreover from True have "num_value m * num_value n = 0"
    by (auto simp: num_value_def str_value_Cons str_value_Nil val_zero_char)
  ultimately show ?thesis by (simp add: zero_Num)
next
  case nz: False
  show ?thesis
  proof (cases "digits m = [] \<or> digits n = []")
    case True
    then have "multiply m n = Some (mkNum ''0'')" by (rule multiply_empty)
    moreover from True have "num_value m * num_value n = 0"
      by (auto simp: num_value_def str_value_Nil)
    ultimately show ?thesis by (simp add: zero_Num)
  next
    case False
    then show ?thesis
      using multiply_spec [OF assms(1,2) _ _ _ _ assms(3)] nz by blast
  qed
qed

lemma multiply_commute_value:
  assumes "is_value m" "is_value n" "length (digits m) + length (digits n) \<le> 2147483646"
  shows "\<exists>r. multiply m n = Some r \<and> multiply n m = Some r"
proof (cases "digits m = ''0'' \<or> digits n = ''0''")
  case True
  then show ?thesis by (auto simp: multiply_def)
next
  case nz: False
  show ?thesis
  proof (cases "digits m = [] \<or> digits n = []")
    case True
    then have "digits n = [] \<or> digits m = []" by auto
    with True show ?thesis by (simp add: multiply_empty)
  next
    case False
    then have ne: "digits m \<noteq> []" "digits n \<noteq> []" by simp_all
    from nz have z: "digits m \<noteq> ''0''" "digits n \<noteq> ''0''" by simp_all
    have b: "length (digits n) + length (digits m) \<le> 2147483646" using assms(3) by simp
    obtain r where r: "multiply m n = Some r" "is_value r"
      "num_value r = num_value m * num_value n"
      "length (digits r) = length (digits m) + length (digits n) - 1 +
       (if num_value r \<ge> 10 ^ (length (digits m) + length (digits n) - 1) then 1 else 0)"
      using multiply_spec [OF assms(1,2) ne z assms(3)] by blast
    obtain q where q: "multiply n m = Some q" "is_value q"
      "num_value q = num_value n * num_value m"
      "length (digits q) = length (digits n) + length (digits m) - 1 +
       (if num_value q \<ge> 10 ^ (length (digits n) + length (digits m) - 1) then 1 else 0)"
      using multiply_spec [OF assms(2,1) ne(2,1) z(2,1) b] by blast
    have v: "num_value r = num_value q"
      using r(3) q(3) by (simp add: mult.commute)
    have l: "length (digits r) = length (digits q)"
      using r(4) q(4) unfolding v by (simp add: add.commute)
    have "digits r = digits q"
      using str_value_inj [of "digits r" "digits q"] r(2) q(2) v l
      by (simp add: is_value_def num_value_def)
    then have "r = q" by (rule Num_eqI)
    with r(1) q(1) show ?thesis by simp
  qed
qed

subsection \<open>Canonical results\<close>

lemma canonical_add:
  assumes "canonical a" "canonical b"
    "length (digits a) \<le> 2147483646" "length (digits b) \<le> 2147483646"
  shows "\<exists>r. add a b = Some r \<and> canonical r \<and> num_value r = num_value a + num_value b"
proof -
  have va: "is_value a" and vb: "is_value b"
    using assms by (simp_all add: canonical_is_value)
  let ?M = "max (length (digits a)) (length (digits b))"
  obtain r where r: "add a b = Some r" "is_value r"
    "num_value r = num_value a + num_value b"
    "length (digits r) = ?M + (if num_value a + num_value b \<ge> 10 ^ ?M then 1 else 0)"
    using add_spec [OF va vb assms(3,4)] by blast
  have M1: "1 \<le> ?M" using canonical_nonempty [OF assms(1)] by (simp add: Suc_leI le_max_iff_disj)
  have ne: "digits r \<noteq> []" using r(4) M1 by auto
  have nn: "0 \<le> num_value a" "0 \<le> num_value b"
    using num_value_bounds va vb by simp_all
  have "length (digits r) = 1 \<or> num_value r \<ge> 10 ^ (length (digits r) - 1)"
  proof (cases "num_value a + num_value b \<ge> 10 ^ ?M")
    case True
    then have "length (digits r) - 1 = ?M" using r(4) by simp
    then show ?thesis using True r(3) by simp
  next
    case False
    then have len: "length (digits r) = ?M" using r(4) by simp
    show ?thesis
    proof (cases "?M = 1")
      case True
      then show ?thesis using len by simp
    next
      case M: False
      have "10 ^ (?M - 1) \<le> num_value a + num_value b"
      proof (cases "length (digits a) \<ge> length (digits b)")
        case True
        then have l: "?M = length (digits a)" by simp
        then have "digits a \<noteq> ''0''" using M by auto
        from canonical_lower_bound [OF assms(1) this] show ?thesis
          unfolding l using nn by linarith
      next
        case False
        then have l: "?M = length (digits b)" by simp
        then have "digits b \<noteq> ''0''" using M by auto
        from canonical_lower_bound [OF assms(2) this] show ?thesis
          unfolding l using nn by linarith
      qed
      then show ?thesis using len r(3) by simp
    qed
  qed
  then have "canonical r"
    using canonical_iff [OF r(2) ne] by simp
  with r(1,3) show ?thesis by blast
qed

lemma canonical_zero_Num: "canonical (mkNum ''0'')"
  by (simp add: canonical_def mkNum_def is_digit_chars)

lemma power_lower_product:
  fixes a b :: int
  assumes "10 ^ k \<le> a" "10 ^ l \<le> b"
  shows "10 ^ (k + l) \<le> a * b"
proof -
  have "(0::int) \<le> 10 ^ k" by simp
  then have "0 \<le> a" using assms(1) by linarith
  then have "(10::int) ^ k * 10 ^ l \<le> a * b"
    using assms by (intro mult_mono) simp_all
  then show ?thesis by (simp add: power_add)
qed

lemma multiply_zero_operand:
  "digits a = ''0'' \<or> digits b = ''0'' \<Longrightarrow> multiply a b = Some (mkNum ''0'')"
  by (simp add: multiply_def)

lemma canonical_multiply:
  assumes "canonical a" "canonical b" "digits a \<noteq> ''0''" "digits b \<noteq> ''0''"
    "length (digits a) + length (digits b) \<le> 2147483646"
  shows "\<exists>r. multiply a b = Some r \<and> canonical r \<and>
           num_value r = num_value a * num_value b \<and>
           (length (digits r) = length (digits a) + length (digits b) \<or>
            length (digits r) = length (digits a) + length (digits b) - 1)"
proof -
  have va: "is_value a" and vb: "is_value b"
    using assms by (simp_all add: canonical_is_value)
  have ne: "digits a \<noteq> []" "digits b \<noteq> []"
    using assms by (simp_all add: canonical_nonempty)
  let ?L = "length (digits a) + length (digits b) - 1"
  obtain r where r: "multiply a b = Some r" "is_value r"
    "num_value r = num_value a * num_value b"
    "length (digits r) = ?L + (if num_value r \<ge> 10 ^ ?L then 1 else 0)"
    using multiply_spec [OF va vb ne assms(3,4,5)] by blast
  have la: "1 \<le> length (digits a)" and lb: "1 \<le> length (digits b)"
    using ne by (simp_all add: Suc_leI)
  have ner: "digits r \<noteq> []" using r(4) la lb by auto
  have low: "10 ^ (?L - 1) \<le> num_value r"
  proof -
    have "?L - 1 = (length (digits a) - 1) + (length (digits b) - 1)"
      using la lb by simp
    then show ?thesis
      unfolding r(3)
      using power_lower_product [OF canonical_lower_bound [OF assms(1,3)]
          canonical_lower_bound [OF assms(2,4)]]
      by simp
  qed
  have "length (digits r) = 1 \<or> num_value r \<ge> 10 ^ (length (digits r) - 1)"
  proof (cases "num_value r \<ge> 10 ^ ?L")
    case True
    then have "length (digits r) - 1 = ?L" using r(4) by simp
    then show ?thesis using True by simp
  next
    case False
    then have "length (digits r) = ?L" using r(4) by simp
    then show ?thesis using low by simp
  qed
  then have c: "canonical r"
    using canonical_iff [OF r(2) ner] by simp
  have "length (digits r) = length (digits a) + length (digits b) \<or>
        length (digits r) = length (digits a) + length (digits b) - 1"
    using r(4) la by (simp split: if_splits)
  with r(1,3) c show ?thesis by blast
qed

subsection \<open>Operands beyond the range of the indices\<close>

lemma multiply_inner_stop: "xind < 0 \<Longrightarrow> multiply_inner x yd xind drem dt = (dt, drem)"
  by (subst multiply_inner.simps) simp

lemma length_minus_one_long:
  assumes "length s = 2147483650"
  shows "length_minus_one s = 2147483649"
proof -
  have "s \<noteq> []" using assms by (cases s) simp_all
  then show ?thesis by (simp add: length_minus_one_def assms)
qed

lemma add_wrapped:
  assumes "length (digits a) = 2147483650" "length (digits b) = 2147483650"
  shows "add a b = Some (mkNum [])"
proof -
  have i: "int_of_size 2147483649 < 0" by (simp add: int_of_size_def)
  show ?thesis
    using assms i by (simp add: add_def add_loop_stop length_minus_one_long)
qed

lemma unval_zero: "unval 0 = CHR ''0''"
  by (simp add: unval_def char_of_eq_iff)

lemma add_zero_empty: "add (mkNum ''0'') (mkNum []) = Some (mkNum ''0'')"
proof -
  have i: "int_of_size (length_minus_one ''0'') = 0" "int_of_size (length_minus_one []) = - 1"
    by (simp_all add: int_of_size_length)
  have d: "add_dsum ''0'' [] 0 (- 1) 0 = 0"
    by (simp add: add_dsum_def val_zero_char)
  have "add_loop ''0'' [] 0 (- 1) 0 [] = add_loop ''0'' [] (- 1) (- 2) 0 [unval 0]"
    by (subst add_loop.simps) (simp add: d INT_MIN_def)
  also have "\<dots> = Some ''0''"
    by (subst add_loop.simps) (simp add: unval_zero)
  finally show ?thesis
    by (simp add: add_def digits_mkNum i)
qed


lemma multiply_long_by_digit:
  assumes "length (digits a) = 2147483650" "digits b = [d]" "d \<noteq> CHR ''0''"
  shows "multiply a b = Some (mkNum ''0'')"
proof -
  have i: "int_of_size 2147483649 < 0" by (simp add: int_of_size_def)
  have na: "digits a \<noteq> ''0''" using assms(1) by auto
  have nb: "digits b \<noteq> ''0''" using assms(2,3) by simp
  have la: "length (digits a) \<ge> length (digits b)"
    using assms(1,2) by simp
  have yi: "int_of_size (length_minus_one (digits b)) = 0"
    using assms(2) by (simp add: length_minus_one_def int_of_size_def)
  have "multiply a b = multiply_loop a b 0 0 (mkNum ''0'')"
    using multiply_unfold [OF na nb] la yi by simp
  also have "\<dots> = multiply_loop a b (- 1) 1 (mkNum ''0'')"
    using i by (subst multiply_loop.simps)
      (simp add: length_minus_one_long [OF assms(1)] zeroes_loop_replicate multiply_inner_stop
        add_zero_empty INT_MAX_def)
  also have "\<dots> = Some (mkNum ''0'')" by (simp add: multiply_loop_stop)
  finally show ?thesis .
qed




subsection \<open>Comparison\<close>

lemma sign_of_leading_digit:
  fixes a b s t :: int
  assumes "0 \<le> s" "s < P" "0 \<le> t" "t < P" "a < b"
  shows "a * P + s < b * P + t"
proof -
  have "a + 1 \<le> b" using assms(5) by simp
  then have "(a + 1) * P \<le> b * P"
    using assms(1,2) by (intro mult_right_mono) simp_all
  then show ?thesis using assms(1-4) by (simp add: algebra_simps)
qed

text \<open>On strings of at most 2147483647 characters the counter never overflows.\<close>

lemma compare_loop_spec:
  assumes "list_all is_digit xs" "list_all is_digit ys" "length xs = length ys" "0 \<le> i"
    "length xs \<le> 2147483647"
  shows "compare_loop xs ys i =
     Some (if str_value (drop (nat i) xs) > str_value (drop (nat i) ys) then 1
           else if str_value (drop (nat i) xs) < str_value (drop (nat i) ys) then - 1
           else 0)"
  using assms
proof (induction xs ys i rule: compare_loop.induct)
  case (1 xs ys i)
  show ?case
  proof (cases "i < int (length xs)")
    case False
    then show ?thesis
      using "1.prems"(3,4) by (subst compare_loop.simps) (simp add: str_value_Nil)
  next
    case True
    have nomax: "\<not> i \<ge> INT_MAX"
      using True "1.prems"(5) by (simp add: INT_MAX_def)
    let ?tx = "drop (nat (i + 1)) xs" and ?ty = "drop (nat (i + 1)) ys"
    have dx: "drop (nat i) xs = xs ! nat i # ?tx"
      using True "1.prems"(4) by (simp add: Cons_nth_drop_Suc nat_add_distrib)
    have dy: "drop (nat i) ys = ys ! nat i # ?ty"
      using True "1.prems"(3,4) by (simp add: Cons_nth_drop_Suc nat_add_distrib)
    have len: "length ?ty = length ?tx" using "1.prems"(3) by simp
    have "list_all is_digit ?tx" "list_all is_digit ?ty"
      using "1.prems"(1,2) by (simp_all add: list_all_iff) (meson in_set_dropD)+
    from str_value_bounds [OF this(1)] str_value_bounds [OF this(2)]
    have b: "0 \<le> str_value ?tx" "str_value ?tx < 10 ^ length ?tx"
      "0 \<le> str_value ?ty" "str_value ?ty < 10 ^ length ?tx"
      using len by simp_all
    consider (gt) "val (xs ! nat i) > val (ys ! nat i)"
      | (lt) "val (xs ! nat i) < val (ys ! nat i)"
      | (eq) "val (xs ! nat i) = val (ys ! nat i)" by linarith
    then show ?thesis
    proof cases
      case gt
      have "str_value (drop (nat i) ys) < str_value (drop (nat i) xs)"
        unfolding dx dy str_value_Cons len
        by (rule sign_of_leading_digit [OF b(3,4,1,2) gt])
      then show ?thesis
        using True gt by (subst compare_loop.simps) simp
    next
      case lt
      have "str_value (drop (nat i) xs) < str_value (drop (nat i) ys)"
        unfolding dx dy str_value_Cons len
        by (rule sign_of_leading_digit [OF b(1,2,3,4) lt])
      then show ?thesis
        using True lt by (subst compare_loop.simps) simp
    next
      case eq
      have ngt: "\<not> val (ys ! nat i) < val (xs ! nat i)"
        and nlt: "\<not> val (xs ! nat i) < val (ys ! nat i)"
        using eq by simp_all
      have "compare_loop xs ys i = compare_loop xs ys (i + 1)"
        using True eq nomax by (subst compare_loop.simps) simp
      also have "\<dots> =
       Some (if str_value ?tx > str_value ?ty then 1
             else if str_value ?tx < str_value ?ty then - 1 else 0)"
        using "1.IH" [OF True ngt nlt nomax] "1.prems" by simp
      finally show ?thesis
        unfolding dx dy str_value_Cons len eq by simp
    qed
  qed
qed

lemma longer_canonical_greater:
  assumes "canonical a" "canonical b" "length (digits a) > length (digits b)"
  shows "num_value a > num_value b"
proof -
  have "digits a \<noteq> ''0''"
    using assms(3) canonical_nonempty [OF assms(2)] by auto
  from canonical_lower_bound [OF assms(1) this]
  have "10 ^ (length (digits a) - 1) \<le> num_value a" .
  moreover have "num_value b < 10 ^ length (digits b)"
    using num_value_bounds [OF canonical_is_value [OF assms(2)]] by simp
  moreover have "(10::int) ^ length (digits b) \<le> 10 ^ (length (digits a) - 1)"
    using assms(3) by (intro power_increasing) simp_all
  ultimately show ?thesis by linarith
qed

text \<open>
  Two strings of more than \<open>INT_MAX\<close> characters that agree from \<open>i\<close> up to index
  \<open>INT_MAX\<close>: the counter reaches \<open>INT_MAX\<close> and its increment overflows.
\<close>

lemma compare_loop_overflow:
  assumes "0 \<le> i" "i \<le> INT_MAX" "INT_MAX < int (length xs)"
    "\<forall>j. i \<le> j \<and> j \<le> INT_MAX \<longrightarrow> xs ! nat j = ys ! nat j"
  shows "compare_loop xs ys i = None"
  using assms
proof (induction "nat (INT_MAX - i)" arbitrary: i)
  case 0
  then have i: "i = INT_MAX" by simp
  have lt: "i < int (length xs)" using i "0.prems"(3) by simp
  have eq: "xs ! nat i = ys ! nat i" using "0.prems"(4) i by simp
  show ?case
    using lt eq i by (subst compare_loop.simps) simp
next
  case (Suc k)
  then have i: "i < INT_MAX" by simp
  have lt: "i < int (length xs)" using i Suc.prems(3) by simp
  have eq: "xs ! nat i = ys ! nat i" using Suc.prems(1,2,4) by simp
  have "compare_loop xs ys i = compare_loop xs ys (i + 1)"
    using lt eq i by (subst compare_loop.simps) simp
  also have "\<dots> = None"
  proof (rule Suc.hyps(1))
    show "k = nat (INT_MAX - (i + 1))" using Suc.hyps(2) by simp
    show "0 \<le> i + 1" using Suc.prems(1) by simp
    show "i + 1 \<le> INT_MAX" using i by simp
    show "INT_MAX < int (length xs)" by (rule Suc.prems(3))
    show "\<forall>j. i + 1 \<le> j \<and> j \<le> INT_MAX \<longrightarrow> xs ! nat j = ys ! nat j"
      using Suc.prems(4) by simp
  qed
  finally show ?case .
qed

lemma canonical_snoc:
  assumes "n \<noteq> 0" "is_digit c" "c \<noteq> CHR ''0''" "is_digit d"
  shows "canonical (mkNum (replicate n c @ [d]))"
  using assms by (auto simp: canonical_def digits_mkNum list_all_iff hd_append)

subsection \<open>Exponentiation\<close>

lemma decrement_length:
  assumes "canonical n" "1 \<le> num_value n" "length (digits n) \<le> 2147483648"
  shows "length (digits (decrement n)) \<le> length (digits n)"
proof (rule ccontr)
  assume "\<not> length (digits (decrement n)) \<le> length (digits n)"
  then have "length (digits (decrement n)) > length (digits n)" by simp
  from longer_canonical_greater [OF decrement_spec(1) [OF assms] assms(1) this]
  show False using decrement_spec(2) [OF assms] by simp
qed

lemma power_loop_zero:
  assumes "canonical p" "length (digits p) \<le> 2147483648"
  shows "power_loop (mkNum ''0'') p (mkNum ''0'') = Some (mkNum ''0'')"
  using assms
proof (induction "nat (num_value p)" arbitrary: p)
  case 0
  have "0 \<le> num_value p"
    using num_value_bounds [OF canonical_is_value [OF "0.prems"(1)]] by simp
  with "0.hyps" have "num_value p = 0" by simp
  then have "digits p = ''0''" using canonical_zero_iff [OF "0.prems"(1)] by simp
  then show ?case by (subst power_loop.simps) simp
next
  case (Suc k)
  then have pos: "1 \<le> num_value p" by linarith
  then have nz: "digits p \<noteq> ''0''" using canonical_zero_iff [OF Suc.prems(1)] by auto
  note D = decrement_spec [OF Suc.prems(1) pos Suc.prems(2)]
  have L: "length (digits (decrement p)) \<le> 2147483648"
    using decrement_length [OF Suc.prems(1) pos Suc.prems(2)] Suc.prems(2) by simp
  have "k = nat (num_value (decrement p))" using D(2) Suc.hyps(2) by simp
  from Suc.hyps(1) [OF this D(1) L]
  have "power_loop (mkNum ''0'') (decrement p) (mkNum ''0'') = Some (mkNum ''0'')" .
  then show ?case
    using nz by (subst power_loop.simps) (simp add: multiply_zero_operand digits_mkNum)
qed

text \<open>An empty exponent stays empty and the loop never ends.\<close>

lemma decrement_empty: "digits p = [] \<Longrightarrow> decrement p = mkNum []"
  by (simp add: decrement_def int_of_size_empty decrement_loop_stop)

lemma power_loop_nonempty:
  assumes "power_loop n p res = Some y"
  shows "digits p \<noteq> []"
proof (rule power_loop.raw_induct [where P = "\<lambda>n p res y. digits p \<noteq> []", OF _ assms])
  fix f :: "Num \<Rightarrow> Num \<Rightarrow> Num \<Rightarrow> Num option" and n p res y
  assume IH: "\<And>n p res y. f n p res = Some y \<Longrightarrow> digits p \<noteq> []"
    and body: "(if digits p \<noteq> ''0''
                then Option.bind (multiply n res) (f n (decrement p))
                else Some res) = Some y"
  show "digits p \<noteq> []"
  proof
    assume e: "digits p = []"
    then have "Option.bind (multiply n res) (f n (decrement p)) = Some y"
      using body by simp
    then obtain r where "f n (decrement p) r = Some y"
      by (auto simp: bind_eq_Some_conv)
    from IH [OF this] show False
      using decrement_empty [OF e] by (simp add: digits_mkNum)
  qed
qed

lemma power_loop_empty: "power_loop n (mkNum []) res = None"
proof (cases "power_loop n (mkNum []) res")
  case None
  then show ?thesis .
next
  case (Some y)
  from power_loop_nonempty [OF this] show ?thesis by (simp add: digits_mkNum)
qed

section \<open>Properties\<close>

text \<open>
  C1.  The claim: decrement maps "0" to "0" (saturation at zero) and "1" to "0".
  On "0" the loop runs once with the borrow pending: the digit is not a leading
  \<open>1\<close> of a longer string, it is \<open>0\<close>, so \<open>9\<close> is written and the loop ends.  The
  code returns "9"; the second half of the claim, "1" to "0", does hold.
\<close>

theorem decrement_zero_is_nine:
  "decrement (mkNum ''0'') = mkNum ''9'' \<and>
   decrement (mkNum ''0'') \<noteq> mkNum ''0'' \<and>
   decrement (mkNum ''1'') = mkNum ''0''"
  by code_simp

text \<open>
  C8.  For every \<open>n\<close>, \<open>power n "0"\<close> returns "1" (the loop body never runs), \<open>n = "0"\<close>
  included; and \<open>power "2" "10"\<close> returns "1024".
\<close>

theorem power_exponent_zero:
  "power n (mkNum ''0'') = Some (mkNum ''1'') \<and>
   power (mkNum ''0'') (mkNum ''0'') = Some (mkNum ''1'') \<and>
   power (mkNum ''2'') (mkNum ''10'') = Some (mkNum ''1024'')"
proof -
  have 1: "power n (mkNum ''0'') = Some (mkNum ''1'')" for n
    unfolding power_def by (subst power_loop.simps) (simp add: mkNum_def)
  have 2: "power (mkNum ''2'') (mkNum ''10'') = Some (mkNum ''1024'')"
    by code_simp
  from 1 2 show ?thesis by simp
qed

text \<open>
  C7.  For a non-empty Value \<open>v\<close> (canonical or not) and at least one significant
  digit, \<open>scino\<close> returns the text that the specification describes: the first digit,
  then for more than one significant digit a point and the next digits padded with
  zeros, then \<open>E\<close> and the decimal text of the number of digits less one.  The
  overload without the count uses 5.  The two examples of the specification are
  evaluated.
\<close>

theorem scino_format:
  assumes "digits v \<noteq> []" "1 \<le> significant_digits"
  shows "scino v significant_digits = Some (scientific_spec (digits v) significant_digits) \<and>
         str_value (put_size (length (digits v) - 1)) = int (length (digits v)) - 1 \<and>
         scino_default v = scino v 5 \<and>
         scino (mkNum ''12345'') 3 = Some ''1.23E4'' \<and>
         scino (mkNum ''7'') 5 = Some ''7.0000E0''"
proof -
  have e: "str_value (put_size (length (digits v) - 1)) = int (length (digits v)) - 1"
    using put_size_value [of "length (digits v) - 1"] assms(1)
    by (cases "digits v") simp_all
  have x: "scino (mkNum ''12345'') 3 = Some ''1.23E4''" "scino (mkNum ''7'') 5 = Some ''7.0000E0''"
    by code_simp+
  from scino_spec [OF assms] e x show ?thesis
    by (simp add: scino_default_def)
qed

theorem scino_format_witness:
  "digits (mkNum ''602214076'') \<noteq> [] \<and> (1::int) \<le> 4 \<and>
   scino (mkNum ''602214076'') 4 = Some (scientific_spec ''602214076'' 4) \<and>
   scientific_spec ''602214076'' 4 = ''6.022E8'' \<and>
   scino_default (mkNum ''602214076'') = scino (mkNum ''602214076'') 5"
proof -
  have d: "digits (mkNum ''602214076'') = ''602214076''" by (simp add: mkNum_def)
  have n: "digits (mkNum ''602214076'') \<noteq> []" unfolding d by simp
  have s: "(1::int) \<le> 4" by simp
  have t: "scientific_spec ''602214076'' 4 = ''6.022E8''" by code_simp
  from scino_format [OF n s] n t show ?thesis
    unfolding d by simp
qed

text \<open>
  C3.  The claim: for every canonical Value \<open>n\<close> of at least 1, \<open>decrement n\<close> is the
  canonical representation of \<open>n - 1\<close>, non-empty and without a leading zero.  The
  source announces numbers of up to 4294967294 digits (\<open>Max value = 9.999... x
  10^4294967293\<close>), but on 2147483649 digits the index \<^verbatim>\<open>int i = n.digits.length()-1\<close>
  is negative, the loop never runs and the empty string is returned.
\<close>

theorem decrement_long_value:
  "canonical (mkNum (replicate 2147483649 (CHR ''5''))) \<and>
   1 \<le> num_value (mkNum (replicate 2147483649 (CHR ''5''))) \<and>
   decrement (mkNum (replicate 2147483649 (CHR ''5''))) = mkNum [] \<and>
   \<not> canonical (decrement (mkNum (replicate 2147483649 (CHR ''5''))))"
proof -
  let ?n = "mkNum (replicate 2147483649 (CHR ''5''))"
  have c: "canonical ?n"
    by (rule canonical_replicate) (simp_all add: is_digit_examples)
  have "digits ?n \<noteq> ''0''" by (rule replicate_not_zero) simp
  from canonical_positive [OF c this] have p: "1 \<le> num_value ?n" .
  have "length_minus_one (digits ?n) = 2147483648"
    by (simp add: digits_mkNum length_minus_one_def)
  then have d: "decrement ?n = mkNum []" by (rule decrement_wrapped)
  have "\<not> canonical (mkNum [])" by (simp add: canonical_def digits_mkNum)
  with c p d show ?thesis by simp
qed

text \<open>
  Below that size the claim holds: for canonical \<open>n\<close> of at least 1 and at most
  2147483648 digits the result is canonical and denotes \<open>n - 1\<close>, and "1000" becomes
  "999".
\<close>

lemma decrement_positive:
  assumes "canonical n" "1 \<le> num_value n" "length (digits n) \<le> 2147483648"
  shows "canonical (decrement n) \<and> num_value (decrement n) = num_value n - 1 \<and>
         decrement (mkNum ''1000'') = mkNum ''999''"
proof -
  have "decrement (mkNum ''1000'') = mkNum ''999''" by code_simp
  with decrement_spec [OF assms] show ?thesis by simp
qed

text \<open>
  C2.  The claim: for canonical \<open>a\<close> and \<open>b\<close>, \<open>multiply\<close> returns a Value that denotes
  exactly \<open>a \<times> b\<close>, whatever the size of the operands.  The source announces numbers
  of up to 4294967294 digits, but for \<open>a\<close> of 2147483650 digits \<open>1\<close> and \<open>b = "2"\<close> the
  index \<^verbatim>\<open>int xind = x.digits.length()-1\<close> of the inner loop is negative: the partial
  product is empty and the result is "0".
\<close>

theorem multiply_long_operand:
  "canonical (mkNum (replicate 2147483650 (CHR ''1''))) \<and> canonical (mkNum ''2'') \<and>
   multiply (mkNum (replicate 2147483650 (CHR ''1''))) (mkNum ''2'') = Some (mkNum ''0'') \<and>
   num_value (mkNum ''0'') \<noteq>
     num_value (mkNum (replicate 2147483650 (CHR ''1''))) * num_value (mkNum ''2'')"
proof -
  let ?a = "mkNum (replicate 2147483650 (CHR ''1''))"
  have a: "canonical ?a"
    by (rule canonical_replicate) (simp_all add: is_digit_examples)
  have b: "canonical (mkNum ''2'')"
    by (simp add: canonical_def digits_mkNum is_digit_examples)
  have m: "multiply ?a (mkNum ''2'') = Some (mkNum ''0'')"
    by (rule multiply_long_by_digit [where d = "CHR ''2''"]) (simp_all add: digits_mkNum)
  have "digits ?a \<noteq> ''0''" by (rule replicate_not_zero) simp
  from canonical_positive [OF a this] have "1 \<le> num_value ?a" .
  moreover have "num_value (mkNum ''2'') = 2"
    by (simp add: num_value_def digits_mkNum str_value_Cons str_value_Nil val_def)
  ultimately have "num_value (mkNum ''0'') \<noteq> num_value ?a * num_value (mkNum ''2'')"
    by (simp add: zero_Num)
  with a b m show ?thesis by simp
qed

text \<open>
  Below that size the claim holds: for canonical operands of at most 2147483646
  digits together, \<open>multiply\<close> returns a Value denoting the exact product.
\<close>

lemma multiply_exact_product:
  assumes "canonical a" "canonical b"
    "length (digits a) + length (digits b) \<le> 2147483646"
  shows "\<exists>r. multiply a b = Some r \<and> is_value r \<and> num_value r = num_value a * num_value b"
  using multiply_value_general [OF canonical_is_value [OF assms(1)]
      canonical_is_value [OF assms(2)] assms(3)] .




text \<open>
  C9.  The claim: for canonical \<open>a\<close> and \<open>b\<close>, \<open>add a b\<close> and \<open>multiply a b\<close> are
  canonical, non-empty and without a leading zero.  For two operands of 2147483650
  digits both indices of \<open>add\<close> start negative, the loop never runs and the sum is
  the empty string, against the range that the source announces.
\<close>

theorem add_long_operands:
  "canonical (mkNum (replicate 2147483650 (CHR ''1''))) \<and>
   canonical (mkNum (replicate 2147483650 (CHR ''2''))) \<and>
   add (mkNum (replicate 2147483650 (CHR ''1''))) (mkNum (replicate 2147483650 (CHR ''2''))) =
     Some (mkNum []) \<and>
   \<not> canonical (mkNum [])"
proof -
  let ?a = "mkNum (replicate 2147483650 (CHR ''1''))"
  let ?b = "mkNum (replicate 2147483650 (CHR ''2''))"
  have a: "canonical ?a"
    by (rule canonical_replicate) (simp_all add: is_digit_examples)
  have b: "canonical ?b"
    by (rule canonical_replicate) (simp_all add: is_digit_examples)
  have s: "add ?a ?b = Some (mkNum [])"
    by (rule add_wrapped) (simp_all add: digits_mkNum)
  have "\<not> canonical (mkNum [])" by (simp add: canonical_def digits_mkNum)
  with a b s show ?thesis by simp
qed

text \<open>
  Below that size the claim holds: for canonical operands of at most 2147483646
  digits together, sum and product are canonical, and "0" is returned exactly for
  the number zero.
\<close>

lemma add_multiply_canonical:
  assumes "canonical a" "canonical b"
    "length (digits a) + length (digits b) \<le> 2147483646"
  shows "\<exists>s p. add a b = Some s \<and> multiply a b = Some p \<and> canonical s \<and> canonical p \<and>
           (digits s = ''0'') = (num_value s = 0) \<and>
           (digits p = ''0'') = (num_value p = 0)"
proof -
  have la: "length (digits a) \<le> 2147483646" and lb: "length (digits b) \<le> 2147483646"
    using assms(3) by simp_all
  obtain s where s: "add a b = Some s" "canonical s"
    using canonical_add [OF assms(1,2) la lb] by blast
  have "\<exists>p. multiply a b = Some p \<and> canonical p"
  proof (cases "digits a = ''0'' \<or> digits b = ''0''")
    case True
    then show ?thesis by (simp add: multiply_zero_operand canonical_zero_Num)
  next
    case False
    then show ?thesis using canonical_multiply [OF assms(1,2) _ _ assms(3)] by blast
  qed
  then obtain p where p: "multiply a b = Some p" "canonical p" by blast
  from s p canonical_zero_iff [OF s(2)] canonical_zero_iff [OF p(2)] show ?thesis by blast
qed


text \<open>
  Below that size the claim holds: \<open>add\<close> commutes on all strings, and for Values of
  at most 2147483646 digits together both orders of \<open>multiply\<close> return the same Value.
\<close>

lemma add_multiply_commute:
  assumes "is_value a" "is_value b"
    "length (digits a) + length (digits b) \<le> 2147483646"
  shows "add a b = add b a \<and> (\<exists>r. multiply a b = Some r \<and> multiply b a = Some r)"
  using add_commute [of a b] multiply_commute_value [OF assms] by simp

text \<open>
  C5.  The claim: for canonical \<open>a\<close> and \<open>b\<close>, \<open>compare a b\<close> is 1, -1 or 0 as \<open>a\<close> is
  numerically greater than, smaller than or equal to \<open>b\<close>.  For two canonical Values
  of 2147483649 digits that differ in the last digit only, within the range that
  the source announces, the loop counter reaches \<open>INT_MAX\<close> before the difference and
  \<^verbatim>\<open>i++\<close> overflows: \<open>a\<close> is smaller than \<open>b\<close>, but the comparison has no defined result.
\<close>

theorem compare_long_values:
  "canonical (mkNum (replicate 2147483648 (CHR ''1'') @ ''1'')) \<and>
   canonical (mkNum (replicate 2147483648 (CHR ''1'') @ ''2'')) \<and>
   num_value (mkNum (replicate 2147483648 (CHR ''1'') @ ''1'')) <
     num_value (mkNum (replicate 2147483648 (CHR ''1'') @ ''2'')) \<and>
   compare (mkNum (replicate 2147483648 (CHR ''1'') @ ''1''))
     (mkNum (replicate 2147483648 (CHR ''1'') @ ''2'')) = None"
proof -
  let ?s = "replicate 2147483648 (CHR ''1'')"
  have a: "canonical (mkNum (?s @ ''1''))"
    by (rule canonical_snoc) (simp_all add: is_digit_examples)
  have b: "canonical (mkNum (?s @ ''2''))"
    by (rule canonical_snoc) (simp_all add: is_digit_examples)
  have v: "num_value (mkNum (?s @ ''1'')) < num_value (mkNum (?s @ ''2''))"
    by (simp add: num_value_def digits_mkNum str_value_snoc val_def)
  have agree: "\<forall>j. 0 \<le> j \<and> j \<le> INT_MAX \<longrightarrow> (?s @ ''1'') ! nat j = (?s @ ''2'') ! nat j"
  proof (intro allI impI)
    fix j :: int
    assume "0 \<le> j \<and> j \<le> INT_MAX"
    then have "nat j < 2147483648" unfolding INT_MAX_def by linarith
    then have "nat j < length ?s" by simp
    then show "(?s @ ''1'') ! nat j = (?s @ ''2'') ! nat j"
      by (simp only: nth_append if_True)
  qed
  have "compare_loop (?s @ ''1'') (?s @ ''2'') 0 = None"
    by (rule compare_loop_overflow [OF _ _ _ agree]) (simp_all add: INT_MAX_def)
  then have c: "compare (mkNum (?s @ ''1'')) (mkNum (?s @ ''2'')) = None"
    by (simp add: compare_def digits_mkNum)
  from a b v c show ?thesis by simp
qed

text \<open>
  Below that size the claim holds: for canonical Values of at most 2147483647
  digits \<open>compare\<close> returns the sign of the numeric difference.
\<close>

lemma compare_ordering:
  assumes "canonical a" "canonical b"
    "length (digits a) \<le> 2147483647" "length (digits b) \<le> 2147483647"
  shows "compare a b =
           Some (if num_value a > num_value b then 1
                 else if num_value a < num_value b then - 1 else 0) \<and>
         compare a a = Some 0 \<and>
         (compare a b = Some 1) = (num_value a > num_value b)"
proof -
  have main: "compare a b =
           Some (if num_value a > num_value b then 1
                 else if num_value a < num_value b then - 1 else 0)"
    if "canonical a" "canonical b" "length (digits a) \<le> 2147483647" for a b
  proof -
    consider (gt) "length (digits a) > length (digits b)"
      | (lt) "length (digits a) < length (digits b)"
      | (eq) "length (digits a) = length (digits b)" by linarith
    then show ?thesis
    proof cases
      case gt
      then show ?thesis
        using longer_canonical_greater [OF that(1,2) gt] by (simp add: compare_def)
    next
      case lt
      then show ?thesis
        using longer_canonical_greater [OF that(2,1) lt] by (simp add: compare_def)
    next
      case eq
      have "list_all is_digit (digits a)" "list_all is_digit (digits b)"
        using that by (simp_all add: canonical_def)
      from compare_loop_spec [OF this eq _ that(3), of 0] show ?thesis
        using eq by (simp add: compare_def num_value_def)
    qed
  qed
  from main [OF assms(1,2,3)] main [OF assms(1,1,3)] show ?thesis by simp
qed

text \<open>
  C10.  The claim: for every canonical exponent \<open>p\<close> other than "0", \<open>power\<close> of "0"
  and \<open>p\<close> returns "0".  For an exponent of 2147483649 digits, within the range
  that the source announces, \<open>decrement\<close> returns the empty string (the defect of C3),
  which never becomes "0": the loop does not end and nothing is returned.
\<close>

theorem power_zero_long_exponent:
  "canonical (mkNum (replicate 2147483649 (CHR ''5''))) \<and>
   digits (mkNum (replicate 2147483649 (CHR ''5''))) \<noteq> ''0'' \<and>
   power (mkNum ''0'') (mkNum (replicate 2147483649 (CHR ''5''))) = None"
proof -
  let ?p = "mkNum (replicate 2147483649 (CHR ''5''))"
  have c: "canonical ?p"
    by (rule canonical_replicate) (simp_all add: is_digit_examples)
  have z: "digits ?p \<noteq> ''0''" by (rule replicate_not_zero) simp
  have "length_minus_one (digits ?p) = 2147483648"
    by (simp add: digits_mkNum length_minus_one_def)
  then have d: "decrement ?p = mkNum []" by (rule decrement_wrapped)
  have "power (mkNum ''0'') ?p =
      Option.bind (multiply (mkNum ''0'') (mkNum ''1''))
        (\<lambda>res. power_loop (mkNum ''0'') (decrement ?p) res)"
    unfolding power_def using z by (subst power_loop.simps) simp
  also have "\<dots> = None"
    by (simp add: multiply_zero_operand digits_mkNum d power_loop_empty)
  finally show ?thesis using c z by simp
qed

text \<open>
  Below that size the claim holds: for a canonical exponent other than "0" of at
  most 2147483648 digits the loop ends and returns "0".
\<close>

lemma power_zero_base:
  assumes "canonical p" "digits p \<noteq> ''0''" "length (digits p) \<le> 2147483648"
  shows "power (mkNum ''0'') p = Some (mkNum ''0'')"
proof -
  have pos: "1 \<le> num_value p" by (rule canonical_positive [OF assms(1,2)])
  have L: "length (digits (decrement p)) \<le> 2147483648"
    using decrement_length [OF assms(1) pos assms(3)] assms(3) by simp
  have "power (mkNum ''0'') p =
      Option.bind (multiply (mkNum ''0'') (mkNum ''1''))
        (\<lambda>res. power_loop (mkNum ''0'') (decrement p) res)"
    unfolding power_def using assms(2) by (subst power_loop.simps) simp
  also have "\<dots> = power_loop (mkNum ''0'') (decrement p) (mkNum ''0'')"
    by (simp add: multiply_zero_operand digits_mkNum)
  also have "\<dots> = Some (mkNum ''0'')"
    by (rule power_loop_zero [OF decrement_spec(1) [OF assms(1) pos assms(3)] L])
  finally show ?thesis .
qed

end
